theory Spec2Isabelle
  imports Main
begin

section \<open>JavaScript strings and objects as the wallet uses them\<close>

text \<open>
  The wallet (\<^verbatim>\<open>app.js\<close>) is a single-threaded browser script. Strings are modelled as
  \<^typ>\<open>string\<close>; \<^verbatim>\<open>null\<close>/\<^verbatim>\<open>undefined\<close> as \<^term>\<open>None\<close>. A JavaScript value of
  type string-or-null is \<^emph>\<open>truthy\<close> when it is a non-empty string.
\<close>

fun truthy :: "string option \<Rightarrow> bool" where
  "truthy None = False"
| "truthy (Some s) = (s \<noteq> [])"

text \<open>\<^verbatim>\<open>a || b\<close> on string-or-null values.\<close>

definition js_or :: "string option \<Rightarrow> string option \<Rightarrow> string option" where
  "js_or a b = (if truthy a then a else b)"

text \<open>\<^verbatim>\<open>String.prototype.trim\<close>, on the ASCII white space characters.\<close>

definition is_space :: "char \<Rightarrow> bool" where
  "is_space c \<longleftrightarrow> c \<in> set [CHR '' '', CHR 0x09, CHR 0x0A, CHR 0x0B, CHR 0x0C, CHR 0x0D]"

definition trim :: "string \<Rightarrow> string" where
  "trim s = rev (dropWhile is_space (rev (dropWhile is_space s)))"

text \<open>\<^verbatim>\<open>s.split(':')\<close>: split at every occurrence of one character.\<close>

fun split_char :: "char \<Rightarrow> string \<Rightarrow> string list" where
  "split_char d [] = [[]]"
| "split_char d (c # cs) =
     (if c = d then [] # split_char d cs
      else (case split_char d cs of
              [] \<Rightarrow> [[c]]
            | x # xs \<Rightarrow> (c # x) # xs))"

text \<open>\<^verbatim>\<open>parts.join(':')\<close>.\<close>

fun js_join :: "char \<Rightarrow> string list \<Rightarrow> string" where
  "js_join d [] = []"
| "js_join d [x] = x"
| "js_join d (x # y # ys) = x @ d # js_join d (y # ys)"

text \<open>\<^verbatim>\<open>s.split(/[\n,]+/)\<close>: split at every maximal run of separator characters.\<close>

function split_runs :: "(char \<Rightarrow> bool) \<Rightarrow> string \<Rightarrow> string list" where
  "split_runs sep [] = [[]]"
| "split_runs sep (c # cs) =
     (if sep c then [] # split_runs sep (dropWhile sep cs)
      else (case split_runs sep cs of
              [] \<Rightarrow> [[c]]
            | x # xs \<Rightarrow> (c # x) # xs))"
  by pat_completeness auto
termination
  by (relation "measure (\<lambda>(sep, s). length s)")
     (auto simp: length_dropWhile_le le_imp_less_Suc)

definition is_list_sep :: "char \<Rightarrow> bool" where
  "is_list_sep c \<longleftrightarrow> c = CHR 0x0A \<or> c = CHR '',''"

text \<open>\<^verbatim>\<open>/^\d+$/.test(s)\<close>: a non-empty string of ASCII digits.\<close>

definition is_digit :: "char \<Rightarrow> bool" where
  "is_digit c \<longleftrightarrow> c \<in> set ''0123456789''"

definition all_digits :: "string \<Rightarrow> bool" where
  "all_digits s \<longleftrightarrow> s \<noteq> [] \<and> list_all is_digit s"

text \<open>The value of a digit: its position in the string of the ten digits.\<close>

definition digit_val :: "char \<Rightarrow> nat" where
  "digit_val c = length (takeWhile (\<lambda>d. d \<noteq> c) ''0123456789'')"

text \<open>
  \<^verbatim>\<open>Number(s)\<close> on a string of digits. JavaScript numbers are doubles: the value is exact
  for every chain id below \<open>2^53\<close>, which is the range this model covers.
\<close>

definition js_Number :: "string \<Rightarrow> nat" where
  "js_Number s = foldl (\<lambda>n c. 10 * n + digit_val c) 0 s"

text \<open>The decimal rendering of a number inside a template string.\<close>

definition digit_char :: "nat \<Rightarrow> char" where
  "digit_char n = ''0123456789'' ! (n mod 10)"

function show_nat :: "nat \<Rightarrow> string" where
  "show_nat n = (if n < 10 then [digit_char n] else show_nat (n div 10) @ [digit_char n])"
  by pat_completeness auto
termination
  by (relation "measure id") auto

declare show_nat.simps [simp del]

text \<open>\<^verbatim>\<open>String.prototype.toLowerCase\<close> on ASCII letters.\<close>

definition lower_char :: "char \<Rightarrow> char" where
  "lower_char c =
     (case map_of (zip ''ABCDEFGHIJKLMNOPQRSTUVWXYZ'' ''abcdefghijklmnopqrstuvwxyz'') c of
        None \<Rightarrow> c
      | Some l \<Rightarrow> l)"

definition toLowerCase :: "string \<Rightarrow> string" where
  "toLowerCase s = map lower_char s"

text \<open>
  A JavaScript object whose keys are chain ids is an association list in the order
  \<^verbatim>\<open>Object.keys\<close> enumerates integer keys: ascending. \<open>obj_put\<close> is the assignment
  \<^verbatim>\<open>o[k] = v\<close>, \<open>obj_delete\<close> is \<^verbatim>\<open>delete o[k]\<close>, \<open>map_of\<close> is the lookup \<^verbatim>\<open>o[k]\<close>.
\<close>

type_synonym 'v js_obj = "(nat \<times> 'v) list"

fun obj_put :: "nat \<Rightarrow> 'v \<Rightarrow> 'v js_obj \<Rightarrow> 'v js_obj" where
  "obj_put k v [] = [(k, v)]"
| "obj_put k v ((k', v') # xs) =
     (if k = k' then (k, v) # xs
      else if k < k' then (k, v) # (k', v') # xs
      else (k', v') # obj_put k v xs)"

definition obj_delete :: "nat \<Rightarrow> 'v js_obj \<Rightarrow> 'v js_obj" where
  "obj_delete k xs = filter (\<lambda>(k', v). k' \<noteq> k) xs"

text \<open>The object spread \<^verbatim>\<open>{...a, ...b}\<close>: the entries of \<open>b\<close> assigned over a copy of \<open>a\<close>.\<close>

definition obj_spread :: "'v js_obj \<Rightarrow> 'v js_obj \<Rightarrow> 'v js_obj" where
  "obj_spread a b = fold (\<lambda>(k, v). obj_put k v) b a"


section \<open>Data model\<close>

type_synonym addr = nat

text \<open>A chain configuration object \<^verbatim>\<open>{id, name, rpc, explorer, native}\<close>.\<close>

record chain_cfg =
  chain_id :: nat
  name :: string
  rpc :: "string option"
  explorer :: string
  native :: string

text \<open>
  A \<^verbatim>\<open>JsonRpcProvider\<close> object: its identity (\<open>prov_id\<close>, fresh for every \<^verbatim>\<open>new\<close>) and
  the endpoint it was opened on.
\<close>

record provider =
  prov_id :: nat
  prov_url :: string

datatype kind = Native | ERC20 | SitePayment

text \<open>The result of \<^verbatim>\<open>ethers.utils.formatUnits(value, decimals)\<close>, kept symbolic.\<close>

datatype amount = FormatUnits nat nat

definition formatEther :: "nat \<Rightarrow> amount" where
  "formatEther v = FormatUnits v 18"

text \<open>The \<^verbatim>\<open>info\<close> object handed to \<^verbatim>\<open>recordActivity\<close>.\<close>

record tx_info =
  type :: kind
  token :: "string option"
  info_from :: "string option"
  info_to :: "string option"
  amount :: amount
  txHash :: "string option"

text \<open>What the RPC client returns: transactions, blocks, logs.\<close>

record tx =
  tx_from :: "string option"
  tx_to :: "string option"
  tx_value :: nat
  tx_hash :: "string option"

record block =
  number :: int
  transactions :: "tx list"

text \<open>
  A log entry; \<open>parsed\<close> is the result of \<^verbatim>\<open>contract.interface.parseLog\<close>
  (\<open>from\<close>, \<open>to\<close>, \<open>value\<close>), \<^term>\<open>None\<close> when it throws.
\<close>

record log =
  log_address :: string
  transactionHash :: "string option"
  parsed :: "(string \<times> string \<times> nat) option"

text \<open>
  \<^verbatim>\<open>monitors[chainId] = { tokenListeners: [], pollHandle: null }\<close>. Every element of
  \<open>tokenListeners\<close> is a closure that detaches one listener; it is represented by the
  identity of that listener.
\<close>

record monitor =
  tokenListeners :: "nat list"
  pollHandle :: "nat option"

text \<open>
  The closure of one block poller (the variables the \<^verbatim>\<open>setInterval\<close> callback captures),
  and the closure of one live \<^verbatim>\<open>Transfer\<close> listener together with the address its filter
  was built from.
\<close>

record poller =
  p_chain :: nat
  p_provider :: provider
  p_siteAddr :: "string option"
  polledBlock :: "int option"

record listener =
  l_chain :: nat
  l_token :: string
  l_provider :: provider
  l_filter_to :: string

text \<open>
  Every \<^verbatim>\<open>await\<close> of the monitoring code suspends the running function; the rest of it
  is a continuation that runs when the RPC call settles. One constructor per \<^verbatim>\<open>await\<close>.
\<close>

datatype cont =
    SubBlockNumber nat string provider
  | SubLogs nat string provider
  | SubDecimals nat string provider log "log list"
  | DiscBlockNumber nat provider
  | DiscLogs nat provider
  | PollLatest nat
  | PollBlock nat int int
  | LiveDecimals nat string string string nat "string option"

datatype reply =
    Rejected
  | RBlockNumber int
  | RLogs "log list"
  | RDecimals nat
  | RBlock block

text \<open>The RPC requests the code issues, in the order it issues them.\<close>

datatype request =
    GetBlockNumber
  | GetLogs int int "string option"
  | GetBlockWithTransactions "int option"
  | GetDecimals string

datatype js_error = NoRpcConfigured nat | TypeError

text \<open>
  The module state of \<^verbatim>\<open>app.js\<close>: its \<^verbatim>\<open>let\<close> variables, the chain-configuration
  objects they point to (\<open>heap\<close>, with \<open>next_addr\<close> the next free address), the timers
  and event listeners registered with the browser and with ethers, the continuations
  waiting for an RPC reply, and the activity list that \<^verbatim>\<open>recordActivity\<close> prepends to
  (each entry is also the \<^verbatim>\<open>incoming_tx\<close> message posted to the embedding site).
\<close>

record app =
  wallet :: "string option"
  heap :: "addr \<Rightarrow> chain_cfg"
  next_addr :: addr
  configuredChains :: "addr js_obj"
  providers :: "provider js_obj"
  next_provider :: nat
  monitors :: "monitor js_obj"
  seenTxs :: "string set"
  activity :: "(nat \<times> tx_info) list"
  chainSelectMain :: "nat option"
  pollers :: "nat \<Rightarrow> poller option"
  intervals :: "nat set"
  next_timer :: nat
  listeners :: "(nat \<times> listener) list"
  next_listener :: nat
  pending :: "cont list"
  rpc_log :: "(provider \<times> request) list"


section \<open>Chain registry\<close>

text \<open>
  \<^verbatim>\<open>DEFAULT_CHAINS\<close> is a constant binding to four objects, which live at addresses 0 to 3
  of the heap. The objects themselves are mutable.
\<close>

definition DEFAULT_CHAINS :: "addr js_obj" where
  "DEFAULT_CHAINS = [(1, 0), (5, 1), (56, 2), (137, 3)]"

definition default_objects :: "addr \<Rightarrow> chain_cfg" where
  "default_objects =
     (\<lambda>a. \<lparr>chain_id = 0, name = [], rpc = None, explorer = [], native = []\<rparr>)
     (0 := \<lparr>chain_id = 1, name = ''Ethereum Mainnet'', rpc = Some ''https://cloudflare-eth.com'',
            explorer = ''https://etherscan.io/tx/'', native = ''ETH''\<rparr>,
      1 := \<lparr>chain_id = 5, name = ''Goerli (test)'', rpc = Some ''https://rpc.ankr.com/eth_goerli'',
            explorer = ''https://goerli.etherscan.io/tx/'', native = ''ETH''\<rparr>,
      2 := \<lparr>chain_id = 56, name = ''BSC Mainnet'', rpc = Some ''https://bsc-dataseed.binance.org/'',
            explorer = ''https://bscscan.com/tx/'', native = ''BNB''\<rparr>,
      3 := \<lparr>chain_id = 137, name = ''Polygon'', rpc = Some ''https://polygon-rpc.com'',
            explorer = ''https://polygonscan.com/tx/'', native = ''MATIC''\<rparr>)"

text \<open>\<^verbatim>\<open>{...obj}\<close> or an object literal: a new object on the heap.\<close>

definition alloc :: "chain_cfg \<Rightarrow> app \<Rightarrow> addr \<times> app" where
  "alloc c s = (next_addr s, s\<lparr>heap := (heap s)(next_addr s := c), next_addr := Suc (next_addr s)\<rparr>)"

text \<open>
  The first half of the loop body of \<^verbatim>\<open>parseChainsInput\<close>: split the item at its colons,
  test the left part against \<^verbatim>\<open>/^\d+$/\<close>, and read the chain id and the text after the
  first colon (\<^term>\<open>None\<close> when the item has no colon).
\<close>

definition parse_item :: "string \<Rightarrow> (nat \<times> string option) option" where
  "parse_item p =
     (case split_char CHR '':'' p of
        [] \<Rightarrow> None
      | left # rest \<Rightarrow>
          (let chainIdStr = trim left in
           if \<not> all_digits chainIdStr then None
           else Some (js_Number chainIdStr,
                      if rest \<noteq> [] then Some (trim (js_join CHR '':'' rest)) else None)))"

text \<open>
  The second half: \<open>meta\<close> is the built-in object itself when the id is a built-in one (no
  copy is made), a new object otherwise; its \<open>rpc\<close> field is assigned, and a copy of it is
  stored in the result.
\<close>

definition store_item :: "nat \<Rightarrow> string option \<Rightarrow> app \<times> addr js_obj \<Rightarrow> app \<times> addr js_obj" where
  "store_item chainId given sr =
     (let s = fst sr; result = snd sr;
          rpc0 = (case given of
                    Some r \<Rightarrow> Some r
                  | None \<Rightarrow> (case map_of DEFAULT_CHAINS chainId of
                               Some d \<Rightarrow> rpc (heap s d)
                             | None \<Rightarrow> None));
          (meta, s1) = (case map_of DEFAULT_CHAINS chainId of
                          Some d \<Rightarrow> (d, s)
                        | None \<Rightarrow> alloc \<lparr>chain_id = chainId, name = ''Chain '' @ show_nat chainId,
                                         rpc = js_or rpc0 None, explorer = [], native = []\<rparr> s);
          s2 = s1\<lparr>heap := (heap s1)(meta := (heap s1 meta)
                  \<lparr>rpc := js_or rpc0 (js_or (rpc (heap s1 meta)) None)\<rparr>)\<rparr>;
          (copy, s3) = alloc (heap s2 meta) s2
      in (s3, obj_put chainId copy result))"


definition parse_step :: "string \<Rightarrow> app \<times> addr js_obj \<Rightarrow> app \<times> addr js_obj" where
  "parse_step p sr =
     (case parse_item p of
        None \<Rightarrow> sr
      | Some (chainId, given) \<Rightarrow> store_item chainId given sr)"

definition input_parts :: "string \<Rightarrow> string list" where
  "input_parts raw = filter (\<lambda>p. p \<noteq> []) (map trim (split_runs is_list_sep raw))"

definition parse_parts :: "string list \<Rightarrow> app \<Rightarrow> app \<times> addr js_obj" where
  "parse_parts parts s = fold parse_step parts (s, [])"

definition parseChainsInput :: "string \<Rightarrow> app \<Rightarrow> app \<times> addr js_obj" where
  "parseChainsInput raw s = parse_parts (input_parts raw) s"


text \<open>The lookup \<^verbatim>\<open>configuredChains[chainId]\<close>: the configuration object, if any.\<close>

definition config_of :: "nat \<Rightarrow> app \<Rightarrow> chain_cfg option" where
  "config_of chainId s = map_option (heap s) (map_of (configuredChains s) chainId)"

text \<open>
  What the code stores for a chain id, up to the endpoint: the built-in object of the id, or
  the fallback object. The registry is \<open>registry_ok\<close> when every built-in object and every
  configured object is allocated and differs from this template in its \<open>rpc\<close> field only.
\<close>

definition template :: "nat \<Rightarrow> chain_cfg" where
  "template chainId =
     (case map_of DEFAULT_CHAINS chainId of
        Some d \<Rightarrow> (default_objects d)\<lparr>rpc := None\<rparr>
      | None \<Rightarrow> \<lparr>chain_id = chainId, name = ''Chain '' @ show_nat chainId, rpc = None,
                  explorer = [], native = []\<rparr>)"

definition registry_ok :: "app \<Rightarrow> bool" where
  "registry_ok s \<longleftrightarrow>
     (\<forall>c d. map_of DEFAULT_CHAINS c = Some d \<longrightarrow>
        d < next_addr s \<and> (heap s d)\<lparr>rpc := None\<rparr> = template c) \<and>
     (\<forall>c a. map_of (configuredChains s) c = Some a \<longrightarrow>
        a < next_addr s \<and> (heap s a)\<lparr>rpc := None\<rparr> = template c)"

text \<open>The invariant of the parsing loop: the registry and the result built so far.\<close>

definition result_ok :: "app \<Rightarrow> addr js_obj \<Rightarrow> bool" where
  "result_ok s res \<longleftrightarrow>
     (\<forall>k a. (k, a) \<in> set res \<longrightarrow> a < next_addr s \<and> (heap s a)\<lparr>rpc := None\<rparr> = template k)"


section \<open>Provider pool\<close>

text \<open>
  \<^verbatim>\<open>ensureProvider\<close> returns the cached provider, throws when the chain has no
  configuration or no endpoint, and otherwise opens, caches and returns a new provider.
\<close>

definition ensureProvider :: "nat \<Rightarrow> app \<Rightarrow> (js_error + provider) \<times> app" where
  "ensureProvider chainId s =
     (case map_of (providers s) chainId of
        Some p \<Rightarrow> (Inr p, s)
      | None \<Rightarrow>
          (case map_of (configuredChains s) chainId of
             None \<Rightarrow> (Inl (NoRpcConfigured chainId), s)
           | Some a \<Rightarrow>
               (case rpc (heap s a) of
                  None \<Rightarrow> (Inl (NoRpcConfigured chainId), s)
                | Some url \<Rightarrow>
                    if url = [] then (Inl (NoRpcConfigured chainId), s)
                    else (let p = \<lparr>prov_id = next_provider s, prov_url = url\<rparr>
                          in (Inr p, s\<lparr>providers := obj_put chainId p (providers s),
                                       next_provider := Suc (next_provider s)\<rparr>)))))"

text \<open>
  A pool is \<open>fresh_since n\<close> when each of its handles was opened at or after the
  \<open>n\<close>-th provider, on the endpoint its chain is configured with now.
\<close>

definition fresh_since :: "nat \<Rightarrow> app \<Rightarrow> bool" where
  "fresh_since n s \<longleftrightarrow>
     n \<le> next_provider s \<and>
     (\<forall>c q. map_of (providers s) c = Some q \<longrightarrow>
        n \<le> prov_id q \<and> prov_id q < next_provider s \<and>
        (\<exists>a. map_of (configuredChains s) c = Some a \<and> rpc (heap s a) = Some (prov_url q)))"

text \<open>The pool holds only handles that were opened so far.\<close>

definition pool_ok :: "app \<Rightarrow> bool" where
  "pool_ok s \<longleftrightarrow> (\<forall>c p. map_of (providers s) c = Some p \<longrightarrow> prov_id p < next_provider s)"

text \<open>
  \<^verbatim>\<open>updateBalanceForSelectedChain\<close>, up to its \<^verbatim>\<open>await\<close>: with a wallet unlocked and a
  configured chain selected it asks for that chain's provider (an exception is caught).
  The balance it then fetches only changes a text of the page.
\<close>

definition updateBalanceForSelectedChain :: "app \<Rightarrow> app" where
  "updateBalanceForSelectedChain s =
     (case wallet s of
        None \<Rightarrow> s
      | Some w \<Rightarrow>
          (case chainSelectMain s of
             None \<Rightarrow> s
           | Some chainId \<Rightarrow>
               (case map_of (configuredChains s) chainId of
                  None \<Rightarrow> s
                | Some a \<Rightarrow> snd (ensureProvider chainId s))))"

text \<open>
  \<^verbatim>\<open>applyChainsToUI\<close>: the selects are rebuilt; the main select is set to the first
  configured chain and the balance display is refreshed.
\<close>

definition applyChainsToUI :: "app \<Rightarrow> app" where
  "applyChainsToUI s =
     (case configuredChains s of
        [] \<Rightarrow> s\<lparr>chainSelectMain := None\<rparr>
      | (k, a) # rest \<Rightarrow> updateBalanceForSelectedChain (s\<lparr>chainSelectMain := Some k\<rparr>))"

text \<open>
  The click handler of the "apply chains" button. It returns \<^term>\<open>None\<close> when it stops
  at the alert for an empty input.
\<close>

definition applyChains :: "string \<Rightarrow> app \<Rightarrow> app option" where
  "applyChains input s =
     (let raw = trim input in
      if raw = [] then None
      else (let (s1, parsed) = parseChainsInput raw s;
                s2 = s1\<lparr>configuredChains := obj_spread (configuredChains s1) parsed\<rparr>;
                s3 = s2\<lparr>providers := []\<rparr>
            in Some (applyChainsToUI s3)))"

text \<open>The state after \<^verbatim>\<open>initUI\<close>, with no wallet unlocked.\<close>

definition init :: app where
  "init = applyChainsToUI
     \<lparr>wallet = None, heap = default_objects, next_addr = 4,
      configuredChains = obj_spread [] DEFAULT_CHAINS, providers = [], next_provider = 0,
      monitors = [], seenTxs = {}, activity = [], chainSelectMain = None,
      pollers = (\<lambda>h. None), intervals = {}, next_timer = 1,
      listeners = [], next_listener = 0, pending = [], rpc_log = []\<rparr>"

text \<open>Unlocking a wallet sets the \<^verbatim>\<open>wallet\<close> variable and refreshes the balance display.\<close>

definition unlock :: "string \<Rightarrow> app \<Rightarrow> app" where
  "unlock address s = updateBalanceForSelectedChain (s\<lparr>wallet := Some address\<rparr>)"


section \<open>Activity notification\<close>

text \<open>
  \<^verbatim>\<open>recordActivity\<close>: an event whose hash is truthy and already in \<^verbatim>\<open>seenTxs\<close> is dropped;
  otherwise a truthy hash is added to the set and the event is prepended to the activity
  list and posted to the embedding site.
\<close>

definition recordActivity :: "nat \<Rightarrow> tx_info \<Rightarrow> app \<Rightarrow> app" where
  "recordActivity chainId info s =
     (case txHash info of
        None \<Rightarrow> s\<lparr>activity := (chainId, info) # activity s\<rparr>
      | Some h \<Rightarrow>
          if h \<noteq> [] \<and> h \<in> seenTxs s then s
          else (if h \<noteq> [] then s\<lparr>seenTxs := insert h (seenTxs s)\<rparr> else s)
               \<lparr>activity := (chainId, info) # activity s\<rparr>)"

text \<open>
  A sequence of calls of \<^verbatim>\<open>recordActivity\<close>, from any chains and callbacks: the calls are
  synchronous, so they happen one after the other. \<open>has_hash h\<close> selects the activity
  entries whose event carries the hash \<open>h\<close>.
\<close>

definition record_all :: "(nat \<times> tx_info) list \<Rightarrow> app \<Rightarrow> app" where
  "record_all calls s = fold (\<lambda>(chainId, info). recordActivity chainId info) calls s"

definition has_hash :: "string \<Rightarrow> nat \<times> tx_info \<Rightarrow> bool" where
  "has_hash h e \<longleftrightarrow> txHash (snd e) = Some h"


section \<open>Block poller\<close>

text \<open>\<^verbatim>\<open>a && a.toLowerCase() === b.toLowerCase()\<close>.\<close>

definition same_address :: "string option \<Rightarrow> string \<Rightarrow> bool" where
  "same_address a b = (case a of None \<Rightarrow> False | Some x \<Rightarrow> x \<noteq> [] \<and> toLowerCase x = toLowerCase b)"

definition native_info :: "tx \<Rightarrow> tx_info" where
  "native_info t = \<lparr>type = Native, token = None, info_from = tx_from t, info_to = tx_to t,
                    amount = formatEther (tx_value t), txHash = tx_hash t\<rparr>"

definition site_info :: "tx \<Rightarrow> tx_info" where
  "site_info t = \<lparr>type = SitePayment, token = None, info_from = tx_from t, info_to = tx_to t,
                  amount = formatEther (tx_value t), txHash = tx_hash t\<rparr>"

text \<open>
  The body of the loop over the transactions of one block. Reading \<^verbatim>\<open>wallet.address\<close>
  with no wallet unlocked throws; that is reached only when \<^verbatim>\<open>tx.to\<close> is truthy.
\<close>

definition scan_tx :: "nat \<Rightarrow> string option \<Rightarrow> tx \<Rightarrow> app \<Rightarrow> js_error + app" where
  "scan_tx chainId siteAddr t s =
     (if \<not> truthy (tx_to t) then Inr s
      else (case wallet s of
              None \<Rightarrow> Inl TypeError
            | Some w \<Rightarrow>
                (let s1 = (if same_address (tx_to t) w
                           then recordActivity chainId (native_info t) s else s);
                     s2 = (if (case siteAddr of
                                 None \<Rightarrow> False
                               | Some site \<Rightarrow> site \<noteq> [] \<and> same_address (tx_from t) site)
                              \<and> same_address (tx_to t) w
                           then recordActivity chainId (site_info t) s1 else s1)
                 in Inr s2)))"

text \<open>The loop itself; an exception leaves it and is swallowed by the enclosing \<^verbatim>\<open>try\<close>.\<close>

fun scan_txs :: "nat \<Rightarrow> string option \<Rightarrow> tx list \<Rightarrow> app \<Rightarrow> app" where
  "scan_txs chainId siteAddr [] s = s"
| "scan_txs chainId siteAddr (t # ts) s =
     (case scan_tx chainId siteAddr t s of
        Inl e \<Rightarrow> s
      | Inr s' \<Rightarrow> scan_txs chainId siteAddr ts s')"

text \<open>Issuing an RPC request: the request is logged and the continuation waits for the reply.\<close>

definition await :: "provider \<Rightarrow> request \<Rightarrow> cont \<Rightarrow> app \<Rightarrow> app" where
  "await p r k s = s\<lparr>pending := pending s @ [k], rpc_log := rpc_log s @ [(p, r)]\<rparr>"

text \<open>The interval callback up to its first \<^verbatim>\<open>await\<close>.\<close>

definition poll_tick :: "nat \<Rightarrow> app \<Rightarrow> app option" where
  "poll_tick h s =
     (case pollers s h of
        None \<Rightarrow> None
      | Some p \<Rightarrow> Some (await (p_provider p) (GetBlockWithTransactions None) (PollLatest h) s))"

definition set_polledBlock :: "nat \<Rightarrow> int \<Rightarrow> app \<Rightarrow> app" where
  "set_polledBlock h b s =
     s\<lparr>pollers := (\<lambda>i. if i = h then map_option (\<lambda>p. p\<lparr>polledBlock := Some b\<rparr>) (pollers s i)
                         else pollers s i)\<rparr>"

text \<open>
  After the latest block arrived: the first tick sets \<^verbatim>\<open>polledBlock\<close> to
  \<^verbatim>\<open>block.number - 1\<close>; with nothing new the tick returns; otherwise the loop starts at
  \<^verbatim>\<open>polledBlock + 1\<close> and fetches that block.
\<close>

definition poll_latest :: "nat \<Rightarrow> reply \<Rightarrow> app \<Rightarrow> app option" where
  "poll_latest h r s =
     (case pollers s h of
        None \<Rightarrow> None
      | Some p \<Rightarrow>
          (case r of
             Rejected \<Rightarrow> Some s
           | RBlock blk \<Rightarrow>
               (let pb = (case polledBlock p of None \<Rightarrow> number blk - 1 | Some b \<Rightarrow> b);
                    s1 = set_polledBlock h pb s
                in if number blk \<le> pb then Some s1
                   else Some (await (p_provider p) (GetBlockWithTransactions (Some (pb + 1)))
                                (PollBlock h (pb + 1) (number blk)) s1))
           | _ \<Rightarrow> None))"

text \<open>
  After block \<open>b\<close> arrived (or its fetch failed, which is swallowed): its transactions are
  scanned, then the loop goes on with \<open>b + 1\<close>, or ends and sets \<^verbatim>\<open>polledBlock\<close> to the
  number of the latest block of this tick.
\<close>

definition poll_block :: "nat \<Rightarrow> int \<Rightarrow> int \<Rightarrow> reply \<Rightarrow> app \<Rightarrow> app option" where
  "poll_block h b latest r s =
     (case pollers s h of
        None \<Rightarrow> None
      | Some p \<Rightarrow>
          (let next = (\<lambda>s1. if b + 1 \<le> latest
                            then await (p_provider p) (GetBlockWithTransactions (Some (b + 1)))
                                   (PollBlock h (b + 1) latest) s1
                            else set_polledBlock h latest s1)
           in case r of
                Rejected \<Rightarrow> Some (next s)
              | RBlock full \<Rightarrow> Some (next (scan_txs (p_chain p) (p_siteAddr p) (transactions full) s))
              | _ \<Rightarrow> None))"


section \<open>Token transfer subscriptions\<close>

text \<open>
  The end of \<^verbatim>\<open>subscribeTokenTransfer\<close>: the listener is attached with a filter built from
  \<^verbatim>\<open>wallet.address\<close> (which throws with no wallet; the outer \<^verbatim>\<open>catch\<close> ends the function),
  the chain's \<^verbatim>\<open>monitors\<close> entry is created when it is missing, and the closure that detaches
  the listener is pushed on \<^verbatim>\<open>tokenListeners\<close>.
\<close>

definition attach :: "nat \<Rightarrow> string \<Rightarrow> provider \<Rightarrow> app \<Rightarrow> app" where
  "attach chainId tokenAddr p s =
     (case wallet s of
        None \<Rightarrow> s
      | Some w \<Rightarrow>
          (let lid = next_listener s;
               l = \<lparr>l_chain = chainId, l_token = tokenAddr, l_provider = p, l_filter_to = w\<rparr>;
               mon = (case map_of (monitors s) chainId of
                        None \<Rightarrow> \<lparr>tokenListeners = [], pollHandle = None\<rparr>
                      | Some m \<Rightarrow> m)
           in s\<lparr>listeners := listeners s @ [(lid, l)], next_listener := Suc lid,
                monitors := obj_put chainId (mon\<lparr>tokenListeners := tokenListeners mon @ [lid]\<rparr>)
                              (monitors s)\<rparr>))"

text \<open>
  The loop over the historical logs: a log that does not parse is skipped, for the others
  the token's decimals are awaited. After the last log the listener is attached.
\<close>

fun backfill :: "nat \<Rightarrow> string \<Rightarrow> provider \<Rightarrow> log list \<Rightarrow> app \<Rightarrow> app" where
  "backfill chainId tokenAddr p [] s = attach chainId tokenAddr p s"
| "backfill chainId tokenAddr p (l # ls) s =
     (case parsed l of
        None \<Rightarrow> backfill chainId tokenAddr p ls s
      | Some args \<Rightarrow> await p (GetDecimals tokenAddr) (SubDecimals chainId tokenAddr p l ls) s)"

text \<open>\<^verbatim>\<open>await contract.decimals().catch(()=>18)\<close>.\<close>

definition decimals_or_18 :: "reply \<Rightarrow> nat option" where
  "decimals_or_18 r = (case r of Rejected \<Rightarrow> Some 18 | RDecimals d \<Rightarrow> Some d | _ \<Rightarrow> None)"

definition erc20_info :: "string \<Rightarrow> string \<Rightarrow> string \<Rightarrow> nat \<Rightarrow> nat \<Rightarrow> string option \<Rightarrow> tx_info" where
  "erc20_info tokenAddr f t v d h =
     \<lparr>type = ERC20, token = Some tokenAddr, info_from = Some f, info_to = Some t,
      amount = FormatUnits v d, txHash = h\<rparr>"

definition sub_decimals :: "nat \<Rightarrow> string \<Rightarrow> provider \<Rightarrow> log \<Rightarrow> log list \<Rightarrow> reply \<Rightarrow> app \<Rightarrow> app option" where
  "sub_decimals chainId tokenAddr p l ls r s =
     (case decimals_or_18 r of
        None \<Rightarrow> None
      | Some d \<Rightarrow>
          (case parsed l of
             None \<Rightarrow> None
           | Some (f, t, v) \<Rightarrow>
               Some (backfill chainId tokenAddr p ls
                       (recordActivity chainId (erc20_info tokenAddr f t v d (transactionHash l)) s))))"

text \<open>\<^verbatim>\<open>Math.max(0, block - 5000)\<close>.\<close>

definition fromBlock :: "int \<Rightarrow> int" where
  "fromBlock b = max 0 (b - 5000)"

text \<open>
  After the block number arrived: the log query is built from \<^verbatim>\<open>wallet.address\<close>; with no
  wallet that throws inside the inner \<^verbatim>\<open>try\<close> and the function goes on to attach the
  listener. A rejected block number ends the function in the outer \<^verbatim>\<open>catch\<close>.
\<close>

definition sub_block_number :: "nat \<Rightarrow> string \<Rightarrow> provider \<Rightarrow> reply \<Rightarrow> app \<Rightarrow> app option" where
  "sub_block_number chainId tokenAddr p r s =
     (case r of
        Rejected \<Rightarrow> Some s
      | RBlockNumber b \<Rightarrow>
          (case wallet s of
             None \<Rightarrow> Some (attach chainId tokenAddr p s)
           | Some w \<Rightarrow> Some (await p (GetLogs (fromBlock b) b (Some tokenAddr))
                               (SubLogs chainId tokenAddr p) s))
      | _ \<Rightarrow> None)"

definition sub_logs :: "nat \<Rightarrow> string \<Rightarrow> provider \<Rightarrow> reply \<Rightarrow> app \<Rightarrow> app option" where
  "sub_logs chainId tokenAddr p r s =
     (case r of
        Rejected \<Rightarrow> Some (attach chainId tokenAddr p s)
      | RLogs logs \<Rightarrow> Some (backfill chainId tokenAddr p logs s)
      | _ \<Rightarrow> None)"

text \<open>\<^verbatim>\<open>subscribeTokenTransfer\<close> up to its first \<^verbatim>\<open>await\<close>; a missing endpoint is caught.\<close>

definition subscribeTokenTransfer :: "nat \<Rightarrow> string \<Rightarrow> app \<Rightarrow> app" where
  "subscribeTokenTransfer chainId tokenAddr s =
     (case ensureProvider chainId s of
        (Inl e, s1) \<Rightarrow> s1
      | (Inr p, s1) \<Rightarrow> await p GetBlockNumber (SubBlockNumber chainId tokenAddr p) s1)"

text \<open>The attached listeners, as the (chain, token) pairs they listen for.\<close>

definition listener_pairs :: "app \<Rightarrow> (nat \<times> string) list" where
  "listener_pairs s = map (\<lambda>(lid, l). (l_chain l, l_token l)) (listeners s)"

text \<open>A live \<^verbatim>\<open>Transfer\<close> event reaches an attached listener, which awaits the decimals.\<close>

definition live_event :: "nat \<Rightarrow> string \<Rightarrow> string \<Rightarrow> nat \<Rightarrow> string option \<Rightarrow> app \<Rightarrow> app option" where
  "live_event lid f t v h s =
     (case map_of (listeners s) lid of
        None \<Rightarrow> None
      | Some l \<Rightarrow> Some (await (l_provider l) (GetDecimals (l_token l))
                          (LiveDecimals (l_chain l) (l_token l) f t v h) s))"

definition live_decimals :: "nat \<Rightarrow> string \<Rightarrow> string \<Rightarrow> string \<Rightarrow> nat \<Rightarrow> string option \<Rightarrow> reply \<Rightarrow> app \<Rightarrow> app option" where
  "live_decimals chainId tokenAddr f t v h r s =
     (case decimals_or_18 r of
        None \<Rightarrow> None
      | Some d \<Rightarrow> Some (recordActivity chainId (erc20_info tokenAddr f t v d h) s))"

text \<open>
  Token discovery, used when no token list is given: the contracts that emitted a
  \<^verbatim>\<open>Transfer\<close> to the wallet in the last 5000 blocks are subscribed, each once
  (\<^verbatim>\<open>new Set\<close> keeps the first occurrence of each address).
\<close>

definition disc_block_number :: "nat \<Rightarrow> provider \<Rightarrow> reply \<Rightarrow> app \<Rightarrow> app option" where
  "disc_block_number chainId p r s =
     (case r of
        Rejected \<Rightarrow> Some s
      | RBlockNumber b \<Rightarrow>
          (case wallet s of
             None \<Rightarrow> Some s
           | Some w \<Rightarrow> Some (await p (GetLogs (fromBlock b) b None) (DiscLogs chainId p) s))
      | _ \<Rightarrow> None)"

definition disc_logs :: "nat \<Rightarrow> provider \<Rightarrow> reply \<Rightarrow> app \<Rightarrow> app option" where
  "disc_logs chainId p r s =
     (case r of
        Rejected \<Rightarrow> Some s
      | RLogs logs \<Rightarrow>
          Some (fold (subscribeTokenTransfer chainId) (rev (remdups (rev (map log_address logs)))) s)
      | _ \<Rightarrow> None)"


section \<open>Monitoring session\<close>

datatype outcome = Done | Alerted | Thrown js_error

text \<open>\<^verbatim>\<open>setInterval\<close> and the assignment of its handle to \<^verbatim>\<open>monitors[chainId].pollHandle\<close>.\<close>

definition start_poller :: "nat \<Rightarrow> provider \<Rightarrow> string option \<Rightarrow> app \<Rightarrow> app" where
  "start_poller chainId p siteAddr s =
     (let h = next_timer s;
          s1 = s\<lparr>pollers := (pollers s)(h \<mapsto> \<lparr>p_chain = chainId, p_provider = p,
                                                p_siteAddr = siteAddr, polledBlock = None\<rparr>),
                 intervals := insert h (intervals s), next_timer := Suc h\<rparr>
      in case map_of (monitors s1) chainId of
           None \<Rightarrow> s1
         | Some mon \<Rightarrow> s1\<lparr>monitors := obj_put chainId (mon\<lparr>pollHandle := Some h\<rparr>) (monitors s1)\<rparr>)"

text \<open>
  The callback of \<^verbatim>\<open>selectedOptions.forEach\<close>. The call of \<^verbatim>\<open>ensureProvider\<close> is not inside
  a \<^verbatim>\<open>try\<close>: its exception leaves the callback (\<^term>\<open>Some\<close> error).
\<close>

definition start_chain :: "string list \<Rightarrow> string option \<Rightarrow> nat \<Rightarrow> app \<Rightarrow> js_error option \<times> app" where
  "start_chain tokens siteAddr chainId s =
     (if map_of (monitors s) chainId \<noteq> None then (None, s)
      else (case ensureProvider chainId s of
              (Inl e, s1) \<Rightarrow> (Some e, s1)
            | (Inr p, s1) \<Rightarrow>
                (let s2 = s1\<lparr>monitors := obj_put chainId \<lparr>tokenListeners = [], pollHandle = None\<rparr>
                                            (monitors s1)\<rparr>;
                     s3 = (if tokens \<noteq> [] then fold (subscribeTokenTransfer chainId) tokens s2
                           else await p GetBlockNumber (DiscBlockNumber chainId p) s2)
                 in (None, start_poller chainId p siteAddr s3))))"

text \<open>\<^verbatim>\<open>forEach\<close>: an exception thrown by the callback ends the iteration.\<close>

fun start_chains :: "string list \<Rightarrow> string option \<Rightarrow> nat list \<Rightarrow> app \<Rightarrow> js_error option \<times> app" where
  "start_chains tokens siteAddr [] s = (None, s)"
| "start_chains tokens siteAddr (chainId # rest) s =
     (case start_chain tokens siteAddr chainId s of
        (Some e, s') \<Rightarrow> (Some e, s')
      | (None, s') \<Rightarrow> start_chains tokens siteAddr rest s')"

text \<open>
  \<^verbatim>\<open>startMonitoring\<close>, with the selected chains, the text of the token field and the text
  of the site-address field as inputs.
\<close>

definition startMonitoring :: "nat list \<Rightarrow> string \<Rightarrow> string \<Rightarrow> app \<Rightarrow> outcome \<times> app" where
  "startMonitoring selectedOptions monitorTokens siteAddress s =
     (case wallet s of
        None \<Rightarrow> (Alerted, s)
      | Some w \<Rightarrow>
          if selectedOptions = [] then (Alerted, s)
          else (let tokensRaw = trim monitorTokens;
                    tokens = (if tokensRaw = [] then []
                              else filter (\<lambda>t. t \<noteq> []) (map trim (split_char CHR '','' tokensRaw)));
                    siteAddr = (if trim siteAddress = [] then None else Some (trim siteAddress))
                in case start_chains tokens siteAddr selectedOptions s of
                     (Some e, s') \<Rightarrow> (Thrown e, s')
                   | (None, s') \<Rightarrow> (Done, s')))"

text \<open>
  One recorded \<^verbatim>\<open>off\<close> closure: it builds the filter from the wallet address of the moment
  it runs (throwing with no wallet, which \<^verbatim>\<open>stopMonitoring\<close> catches) and detaches its
  listener from that filter.
\<close>

definition off :: "nat \<Rightarrow> app \<Rightarrow> app" where
  "off lid s =
     (case wallet s of
        None \<Rightarrow> s
      | Some w \<Rightarrow>
          s\<lparr>listeners := filter (\<lambda>(i, l). \<not> (i = lid \<and> toLowerCase (l_filter_to l) = toLowerCase w))
                            (listeners s)\<rparr>)"

definition stop_chain :: "nat \<Rightarrow> app \<Rightarrow> app" where
  "stop_chain chainId s =
     (case map_of (monitors s) chainId of
        None \<Rightarrow> s
      | Some mon \<Rightarrow>
          (let s1 = fold off (tokenListeners mon) s;
               s2 = (case pollHandle mon of
                       None \<Rightarrow> s1
                     | Some h \<Rightarrow> s1\<lparr>intervals := intervals s1 - {h}\<rparr>)
           in s2\<lparr>monitors := obj_delete chainId (monitors s2)\<rparr>))"

definition stopMonitoring :: "app \<Rightarrow> app" where
  "stopMonitoring s = fold stop_chain (map fst (monitors s)) s"


section \<open>The event loop\<close>

text \<open>
  Everything the script does is a reaction to an event, and runs to its next \<^verbatim>\<open>await\<close>
  or to its end before the next event is handled: a click on a button, a timer firing,
  a \<^verbatim>\<open>Transfer\<close> event delivered to a listener, the reply to a pending RPC request.
\<close>

datatype event =
    Unlock string
  | ApplyChains string
  | StartMonitoring "nat list" string string
  | StopMonitoring
  | Tick nat
  | Transfer nat string string nat "string option"
  | Settle nat reply

definition resume :: "cont \<Rightarrow> reply \<Rightarrow> app \<Rightarrow> app option" where
  "resume k r s =
     (case k of
        SubBlockNumber c tok p \<Rightarrow> sub_block_number c tok p r s
      | SubLogs c tok p \<Rightarrow> sub_logs c tok p r s
      | SubDecimals c tok p l ls \<Rightarrow> sub_decimals c tok p l ls r s
      | DiscBlockNumber c p \<Rightarrow> disc_block_number c p r s
      | DiscLogs c p \<Rightarrow> disc_logs c p r s
      | PollLatest h \<Rightarrow> poll_latest h r s
      | PollBlock h b latest \<Rightarrow> poll_block h b latest r s
      | LiveDecimals c tok f t v h \<Rightarrow> live_decimals c tok f t v h r s)"

text \<open>
  \<open>exec e s\<close> is the state after the event, \<^term>\<open>None\<close> when the event cannot happen in
  \<open>s\<close>: a cleared timer does not fire, a detached listener is not called, and only a
  pending request is answered, with a reply of its kind.
\<close>

definition exec :: "event \<Rightarrow> app \<Rightarrow> app option" where
  "exec e s =
     (case e of
        Unlock address \<Rightarrow> Some (unlock address s)
      | ApplyChains input \<Rightarrow> Some (case applyChains input s of None \<Rightarrow> s | Some s' \<Rightarrow> s')
      | StartMonitoring sel toks site \<Rightarrow> Some (snd (startMonitoring sel toks site s))
      | StopMonitoring \<Rightarrow> Some (stopMonitoring s)
      | Tick h \<Rightarrow> if h \<in> intervals s then poll_tick h s else None
      | Transfer lid f t v h \<Rightarrow> live_event lid f t v h s
      | Settle i r \<Rightarrow>
          if i < length (pending s)
          then resume (pending s ! i) r (s\<lparr>pending := take i (pending s) @ drop (Suc i) (pending s)\<rparr>)
          else None)"

fun run :: "event list \<Rightarrow> app \<Rightarrow> app option" where
  "run [] s = Some s"
| "run (e # es) s = (case exec e s of None \<Rightarrow> None | Some s' \<Rightarrow> run es s')"



section \<open>Properties\<close>

subsection \<open>Objects\<close>

lemma map_of_obj_put: "map_of (obj_put k v xs) = (map_of xs)(k \<mapsto> v)"
  by (induction xs) (auto simp: fun_upd_twist)

lemma map_of_obj_delete: "map_of (obj_delete k xs) = (map_of xs)(k := None)"
  by (induction xs) (auto simp: obj_delete_def)


lemma map_of_obj_spread: "map_of (obj_spread a b) = map_of a ++ map_of (rev b)"
  unfolding obj_spread_def
proof (induction b arbitrary: a)
  case Nil
  show ?case by simp
next
  case (Cons kv b)
  obtain k v where kv: "kv = (k, v)" by (cases kv)
  have "map_of (fold (\<lambda>(k, v). obj_put k v) (kv # b) a)
        = map_of (obj_put k v a) ++ map_of (rev b)"
    using Cons.IH [of "obj_put k v a"] by (simp add: kv)
  also have "\<dots> = map_of a ++ map_of (rev (kv # b))"
    by (simp add: map_of_obj_put kv map_add_def fun_eq_iff split: option.splits)
  finally show ?case .
qed


subsection \<open>Parsing\<close>

lemma store_item_builtin:
  assumes "map_of DEFAULT_CHAINS c = Some d"
  shows "store_item c g (s, res) =
     (s\<lparr>heap := (heap s)
           (d := (heap s d)\<lparr>rpc := js_or (case g of Some r \<Rightarrow> Some r | None \<Rightarrow> rpc (heap s d))
                                       (js_or (rpc (heap s d)) None)\<rparr>,
            next_addr s := (heap s d)\<lparr>rpc := js_or (case g of Some r \<Rightarrow> Some r | None \<Rightarrow> rpc (heap s d))
                                       (js_or (rpc (heap s d)) None)\<rparr>),
        next_addr := Suc (next_addr s)\<rparr>,
      obj_put c (next_addr s) res)"
  using assms by (cases g) (simp_all add: store_item_def alloc_def Let_def)

lemma store_item_custom:
  assumes "map_of DEFAULT_CHAINS c = None"
  shows "store_item c g (s, res) =
     (s\<lparr>heap := (heap s)
           (next_addr s := \<lparr>chain_id = c, name = ''Chain '' @ show_nat c, rpc = js_or g None,
                            explorer = [], native = []\<rparr>,
            Suc (next_addr s) := \<lparr>chain_id = c, name = ''Chain '' @ show_nat c, rpc = js_or g None,
                            explorer = [], native = []\<rparr>),
        next_addr := Suc (Suc (next_addr s))\<rparr>,
      obj_put c (Suc (next_addr s)) res)"
  using assms by (cases g) (simp_all add: store_item_def alloc_def js_or_def Let_def)

lemma store_item_shape:
  "\<exists>hp na a. store_item c g (s, res) = (s\<lparr>heap := hp, next_addr := na\<rparr>, obj_put c a res)"
proof (cases "map_of DEFAULT_CHAINS c")
  case None
  show ?thesis unfolding store_item_custom [OF None] by blast
next
  case (Some d)
  show ?thesis unfolding store_item_builtin [OF Some] by blast
qed

lemma parse_step_malformed: "parse_item p = None \<Longrightarrow> parse_step p sr = sr"
  by (simp add: parse_step_def)

lemma parse_step_wellformed: "parse_item p = Some (c, g) \<Longrightarrow> parse_step p sr = store_item c g sr"
  by (simp add: parse_step_def)

lemma parse_step_shape:
  "\<exists>hp na. fst (parse_step p (s\<lparr>heap := hq, next_addr := nq\<rparr>, res)) = s\<lparr>heap := hp, next_addr := na\<rparr>"
proof (cases "parse_item p")
  case None
  then show ?thesis by (auto simp: parse_step_malformed)
next
  case (Some cg)
  obtain c g where cg: "cg = (c, g)" by (cases cg)
  obtain hp na a where
    "store_item c g (s\<lparr>heap := hq, next_addr := nq\<rparr>, res)
       = (s\<lparr>heap := hq, next_addr := nq\<rparr>\<lparr>heap := hp, next_addr := na\<rparr>, obj_put c a res)"
    using store_item_shape by blast
  then show ?thesis using Some cg by (auto simp: parse_step_wellformed)
qed

lemma fold_parse_step_shape:
  "\<exists>hp na. fst (fold parse_step ps (s\<lparr>heap := hq, next_addr := nq\<rparr>, res)) = s\<lparr>heap := hp, next_addr := na\<rparr>"
proof (induction ps arbitrary: hq nq res)
  case Nil
  show ?case by auto
next
  case (Cons p ps)
  obtain hp1 na1 where 1: "fst (parse_step p (s\<lparr>heap := hq, next_addr := nq\<rparr>, res)) = s\<lparr>heap := hp1, next_addr := na1\<rparr>"
    using parse_step_shape by blast
  obtain res1 where 2: "parse_step p (s\<lparr>heap := hq, next_addr := nq\<rparr>, res) = (s\<lparr>heap := hp1, next_addr := na1\<rparr>, res1)"
    using 1 by (cases "parse_step p (s\<lparr>heap := hq, next_addr := nq\<rparr>, res)") auto
  show ?case using Cons.IH [where hq = hp1 and nq = na1 and res = res1] by (simp add: 2)
qed

lemma parseChainsInput_shape:
  "\<exists>hp na. fst (parseChainsInput raw s) = s\<lparr>heap := hp, next_addr := na\<rparr>"
proof -
  have "s = s\<lparr>heap := heap s, next_addr := next_addr s\<rparr>" by simp
  then show ?thesis
    unfolding parseChainsInput_def parse_parts_def
    using fold_parse_step_shape [where ps = "input_parts raw" and s = s and hq = "heap s" and nq = "next_addr s" and res = "[]"] by simp
qed






subsection \<open>Provider pool and the apply handler\<close>

lemma ensureProvider_frame:
  "heap (snd (ensureProvider c s)) = heap s"
  "configuredChains (snd (ensureProvider c s)) = configuredChains s"
  "next_addr (snd (ensureProvider c s)) = next_addr s"
  by (simp_all add: ensureProvider_def Let_def split: option.splits)

lemma updateBalance_frame:
  "heap (updateBalanceForSelectedChain s) = heap s"
  "configuredChains (updateBalanceForSelectedChain s) = configuredChains s"
  by (simp_all add: updateBalanceForSelectedChain_def ensureProvider_frame split: option.splits)

lemma applyChainsToUI_frame:
  "heap (applyChainsToUI s) = heap s"
  "configuredChains (applyChainsToUI s) = configuredChains s"
  by (simp_all add: applyChainsToUI_def updateBalance_frame split: list.splits)

lemma applyChains_SomeD:
  assumes "applyChains input s = Some s'"
  shows "trim input \<noteq> []"
    and "heap s' = heap (fst (parseChainsInput (trim input) s))"
    and "configuredChains s' = obj_spread (configuredChains s) (snd (parseChainsInput (trim input) s))"
proof -
  show ne: "trim input \<noteq> []" using assms by (auto simp: applyChains_def Let_def split: if_splits)
  obtain hp na where sh: "fst (parseChainsInput (trim input) s) = s\<lparr>heap := hp, next_addr := na\<rparr>"
    using parseChainsInput_shape by blast
  obtain parsed where pp: "parseChainsInput (trim input) s = (s\<lparr>heap := hp, next_addr := na\<rparr>, parsed)"
    using sh by (cases "parseChainsInput (trim input) s") auto
  have s': "s' = applyChainsToUI (s\<lparr>heap := hp, next_addr := na,
                  configuredChains := obj_spread (configuredChains s) parsed, providers := []\<rparr>)"
    using assms ne by (simp add: applyChains_def Let_def pp)
  show "heap s' = heap (fst (parseChainsInput (trim input) s))"
    by (simp add: s' pp applyChainsToUI_frame)
  show "configuredChains s' = obj_spread (configuredChains s) (snd (parseChainsInput (trim input) s))"
    by (simp add: s' pp applyChainsToUI_frame)
qed



lemma show_nat_small: "n < 10 \<Longrightarrow> show_nat n = [digit_char n]"
  by (subst show_nat.simps) simp

lemma show_nat_big: "\<not> n < 10 \<Longrightarrow> show_nat n = show_nat (n div 10) @ [digit_char n]"
  by (subst show_nat.simps) simp

lemmas string_eval = digit_val_def trim_def is_space_def all_digits_def is_digit_def js_Number_def
  input_parts_def is_list_sep_def parse_item_def show_nat_small show_nat_big digit_char_def
  toLowerCase_def lower_char_def same_address_def

lemmas registry_eval = parse_step_def store_item_def alloc_def parse_parts_def
  parseChainsInput_def applyChains_def applyChainsToUI_def updateBalanceForSelectedChain_def
  ensureProvider_def init_def DEFAULT_CHAINS_def default_objects_def obj_spread_def js_or_def
  config_of_def unlock_def Let_def




subsection \<open>The registry invariant\<close>

lemma set_obj_put: "set (obj_put k v xs) \<subseteq> insert (k, v) (set xs)"
  by (induction xs) (auto split: if_splits)

lemma template_builtin: "map_of DEFAULT_CHAINS c = Some d \<Longrightarrow> template c = (default_objects d)\<lparr>rpc := None\<rparr>"
  by (simp add: template_def)

lemma template_custom:
  "map_of DEFAULT_CHAINS c = None \<Longrightarrow>
   template c = \<lparr>chain_id = c, name = ''Chain '' @ show_nat c, rpc = None, explorer = [], native = []\<rparr>"
  by (simp add: template_def)

lemma registry_ok_init: "registry_ok init"
proof -
  have c: "configuredChains init = DEFAULT_CHAINS" "heap init = default_objects" "next_addr init = 4"
    by (simp_all add: registry_eval)
  have d: "d < 4" if "map_of DEFAULT_CHAINS k = Some d" for k d
    using that by (auto simp: DEFAULT_CHAINS_def split: if_splits)
  show ?thesis
    unfolding registry_ok_def c
    using d by (auto simp: template_builtin)
qed

lemma registry_ok_extend:
  assumes "registry_ok s"
    and "result_ok s res"
    and "next_addr s \<le> next_addr s1"
    and "configuredChains s1 = configuredChains s"
    and "\<forall>a. a < next_addr s \<longrightarrow> (heap s1 a)\<lparr>rpc := None\<rparr> = (heap s a)\<lparr>rpc := None\<rparr>"
    and "b < next_addr s1"
    and "(heap s1 b)\<lparr>rpc := None\<rparr> = template c"
  shows "registry_ok s1"
    and "result_ok s1 (obj_put c b res)"
proof -
  show "registry_ok s1"
    unfolding registry_ok_def
  proof (intro conjI allI impI)
    fix k d assume "map_of DEFAULT_CHAINS k = Some d"
    then have "d < next_addr s \<and> (heap s d)\<lparr>rpc := None\<rparr> = template k"
      using assms(1) by (simp add: registry_ok_def)
    then show "d < next_addr s1" "(heap s1 d)\<lparr>rpc := None\<rparr> = template k"
      using assms(3,5) by auto
  next
    fix k a assume "map_of (configuredChains s1) k = Some a"
    then have "a < next_addr s \<and> (heap s a)\<lparr>rpc := None\<rparr> = template k"
      using assms(1,4) by (simp add: registry_ok_def)
    then show "a < next_addr s1" "(heap s1 a)\<lparr>rpc := None\<rparr> = template k"
      using assms(3,5) by auto
  qed
  show "result_ok s1 (obj_put c b res)"
    unfolding result_ok_def
  proof (intro allI impI)
    fix k a assume "(k, a) \<in> set (obj_put c b res)"
    then have "(k, a) = (c, b) \<or> (k, a) \<in> set res"
      using set_obj_put [of c b res] by auto
    then show "a < next_addr s1 \<and> (heap s1 a)\<lparr>rpc := None\<rparr> = template k"
    proof
      assume "(k, a) = (c, b)"
      then show ?thesis using assms(6,7) by simp
    next
      assume "(k, a) \<in> set res"
      then have "a < next_addr s \<and> (heap s a)\<lparr>rpc := None\<rparr> = template k"
        using assms(2) by (simp add: result_ok_def)
      then show ?thesis using assms(3,5) by auto
    qed
  qed
qed

lemma store_item_ok:
  assumes "registry_ok s"
    and "result_ok s res"
    and "store_item c g (s, res) = (s1, res1)"
  shows "registry_ok s1 \<and> result_ok s1 res1"
proof (cases "map_of DEFAULT_CHAINS c")
  case None
  let ?F = "\<lparr>chain_id = c, name = ''Chain '' @ show_nat c, rpc = js_or g None,
             explorer = [], native = []\<rparr>"
  have s1: "s1 = s\<lparr>heap := (heap s)(next_addr s := ?F, Suc (next_addr s) := ?F),
                   next_addr := Suc (Suc (next_addr s))\<rparr>"
    and r1: "res1 = obj_put c (Suc (next_addr s)) res"
    using assms(3) unfolding store_item_custom [OF None] by simp_all
  have a: "next_addr s \<le> next_addr s1" "configuredChains s1 = configuredChains s"
      "Suc (next_addr s) < next_addr s1"
    by (simp_all add: s1)
  have b: "\<forall>a. a < next_addr s \<longrightarrow> (heap s1 a)\<lparr>rpc := None\<rparr> = (heap s a)\<lparr>rpc := None\<rparr>"
    by (simp add: s1)
  have c: "(heap s1 (Suc (next_addr s)))\<lparr>rpc := None\<rparr> = template c"
    by (simp add: s1 template_custom [OF None])
  show ?thesis
    unfolding r1 using registry_ok_extend [OF assms(1,2) a(1,2) b a(3) c] by simp
next
  case (Some d)
  let ?X = "(heap s d)\<lparr>rpc := js_or (case g of Some r \<Rightarrow> Some r | None \<Rightarrow> rpc (heap s d))
                                       (js_or (rpc (heap s d)) None)\<rparr>"
  have s1: "s1 = s\<lparr>heap := (heap s)(d := ?X, next_addr s := ?X), next_addr := Suc (next_addr s)\<rparr>"
    and r1: "res1 = obj_put c (next_addr s) res"
    using assms(3) unfolding store_item_builtin [OF Some] by simp_all
  have dd: "d < next_addr s" "(heap s d)\<lparr>rpc := None\<rparr> = template c"
    using assms(1) Some by (auto simp: registry_ok_def)
  have a: "next_addr s \<le> next_addr s1" "configuredChains s1 = configuredChains s"
      "next_addr s < next_addr s1"
    by (simp_all add: s1)
  have b: "\<forall>a. a < next_addr s \<longrightarrow> (heap s1 a)\<lparr>rpc := None\<rparr> = (heap s a)\<lparr>rpc := None\<rparr>"
    by (simp add: s1)
  have c: "(heap s1 (next_addr s))\<lparr>rpc := None\<rparr> = template c"
    using dd(2) by (simp add: s1)
  show ?thesis
    unfolding r1 using registry_ok_extend [OF assms(1,2) a(1,2) b a(3) c] by simp
qed

lemma fold_parse_step_ok:
  assumes "registry_ok s"
    and "result_ok s res"
    and "fold parse_step ps (s, res) = (s', res')"
  shows "registry_ok s' \<and> result_ok s' res'"
  using assms
proof (induction ps arbitrary: s res)
  case Nil
  then show ?case by simp
next
  case (Cons p ps)
  show ?case
  proof (cases "parse_item p")
    case None
    then show ?thesis using Cons.IH [OF Cons.prems(1,2)] Cons.prems(3)
      by (simp add: parse_step_malformed)
  next
    case (Some cg)
    obtain c g where cg: "cg = (c, g)" by (cases cg)
    obtain s1 res1 where st: "store_item c g (s, res) = (s1, res1)"
      by (cases "store_item c g (s, res)")
    have 1: "registry_ok s1" and 2: "result_ok s1 res1"
      using store_item_ok [OF Cons.prems(1,2) st] by simp_all
    have "fold parse_step ps (s1, res1) = (s', res')"
      using Cons.prems(3) Some cg by (simp add: parse_step_wellformed st)
    then show ?thesis using Cons.IH [OF 1 2] by simp
  qed
qed

lemma applyChainsToUI_registry_ok: "registry_ok s \<Longrightarrow> registry_ok (applyChainsToUI s)"
proof -
  have "next_addr (applyChainsToUI s) = next_addr s"
    by (simp add: applyChainsToUI_def updateBalanceForSelectedChain_def ensureProvider_frame
        split: list.splits option.splits)
  then show "registry_ok s \<Longrightarrow> registry_ok (applyChainsToUI s)"
    by (simp add: registry_ok_def applyChainsToUI_frame)
qed

text \<open>The registry is \<open>registry_ok\<close> initially, and the apply handler keeps it so.\<close>

lemma applyChains_registry_ok:
  assumes "registry_ok s"
    and "applyChains input s = Some s'"
  shows "registry_ok s'"
proof -
  have ne: "trim input \<noteq> []" using applyChains_SomeD(1) [OF assms(2)] .
  obtain s1 parsed where pp: "parseChainsInput (trim input) s = (s1, parsed)"
    by (cases "parseChainsInput (trim input) s")
  have s': "s' = applyChainsToUI (s1\<lparr>configuredChains := obj_spread (configuredChains s1) parsed,
                                     providers := []\<rparr>)"
    using assms(2) ne by (simp add: applyChains_def Let_def pp)
  have "result_ok s []" by (simp add: result_ok_def)
  then have ok: "registry_ok s1" "result_ok s1 parsed"
    using fold_parse_step_ok [OF assms(1), of "[]" "input_parts (trim input)" s1 parsed] pp
    by (simp_all add: parseChainsInput_def parse_parts_def)
  have "registry_ok (s1\<lparr>configuredChains := obj_spread (configuredChains s1) parsed,
                         providers := []\<rparr>)"
    unfolding registry_ok_def
  proof (intro conjI allI impI)
    fix k d assume "map_of DEFAULT_CHAINS k = Some d"
    then show "d < next_addr (s1\<lparr>configuredChains := obj_spread (configuredChains s1) parsed, providers := []\<rparr>)"
      "(heap (s1\<lparr>configuredChains := obj_spread (configuredChains s1) parsed, providers := []\<rparr>) d)\<lparr>rpc := None\<rparr> = template k"
      using ok(1) by (simp_all add: registry_ok_def)
  next
    fix k a
    assume "map_of (configuredChains (s1\<lparr>configuredChains := obj_spread (configuredChains s1) parsed, providers := []\<rparr>)) k = Some a"
    then have "map_of (configuredChains s1) k = Some a \<or> map_of (rev parsed) k = Some a"
      by (auto simp: map_of_obj_spread map_add_def split: option.splits)
    then have "a < next_addr s1 \<and> (heap s1 a)\<lparr>rpc := None\<rparr> = template k"
    proof
      assume "map_of (configuredChains s1) k = Some a"
      then show ?thesis using ok(1) by (simp add: registry_ok_def)
    next
      assume "map_of (rev parsed) k = Some a"
      then have "(k, a) \<in> set parsed" using map_of_SomeD [of "rev parsed" k a] by simp
      then show ?thesis using ok(2) by (simp add: result_ok_def)
    qed
    then show "a < next_addr (s1\<lparr>configuredChains := obj_spread (configuredChains s1) parsed, providers := []\<rparr>)"
      "(heap (s1\<lparr>configuredChains := obj_spread (configuredChains s1) parsed, providers := []\<rparr>) a)\<lparr>rpc := None\<rparr> = template k"
      by simp_all
  qed
  then show ?thesis unfolding s' by (rule applyChainsToUI_registry_ok)
qed



lemma applyChains_defined: "trim input \<noteq> [] \<Longrightarrow> \<exists>s'. applyChains input s = Some s'"
  by (simp add: applyChains_def Let_def split: prod.splits)

lemma applyChains_single:
  assumes "applyChains input s = Some s'"
    and "input_parts (trim input) = [p]"
    and "parse_item p = Some (c, g)"
  shows "heap s' = heap (fst (store_item c g (s, [])))"
    and "configuredChains s' = obj_spread (configuredChains s) (snd (store_item c g (s, [])))"
proof -
  have "parseChainsInput (trim input) s = store_item c g (s, [])"
    using assms(2,3) by (simp add: parseChainsInput_def parse_parts_def parse_step_wellformed)
  then show "heap s' = heap (fst (store_item c g (s, [])))"
    and "configuredChains s' = obj_spread (configuredChains s) (snd (store_item c g (s, [])))"
    using applyChains_SomeD [OF assms(1)] by simp_all
qed

text \<open>
  Claim C7, as stated, fails in its general clause ("an override of an existing id
  replaces only the fields the entry specifies"): chain 9999 is configured with the endpoint
  \<^verbatim>\<open>https://a\<close>; the later entry \<^verbatim>\<open>9999\<close> specifies no endpoint, and yet the
  endpoint of chain 9999 is replaced, by \<^verbatim>\<open>null\<close>.
\<close>

theorem C7_counterexample:
  "map_option (config_of 9999) (run [ApplyChains ''9999:https://a''] init)
     = Some (Some \<lparr>chain_id = 9999, name = ''Chain 9999'', rpc = Some ''https://a'',
                   explorer = [], native = []\<rparr>)
   \<and> parse_item ''9999'' = Some (9999, None)
   \<and> map_option (config_of 9999) (run [ApplyChains ''9999:https://a'', ApplyChains ''9999''] init)
     = Some (Some \<lparr>chain_id = 9999, name = ''Chain 9999'', rpc = None,
                   explorer = [], native = []\<rparr>)"
  by (simp add: exec_def string_eval registry_eval)

text \<open>
  Claim C7, amended: applying the entry \<^verbatim>\<open>137:https://x\<close> to a registry that contains chain
  137 with name "Polygon" yields chain 137 with name still "Polygon" and endpoint
  \<^verbatim>\<open>https://x\<close>. In general an entry that supplies an endpoint for an id the registry
  already holds replaces the \<open>rpc\<close> field and nothing else, while an entry that supplies
  no endpoint for a chain outside the built-in set resets the endpoint to \<^verbatim>\<open>null\<close>. This
  holds in every registry that is \<open>registry_ok\<close>, as the initial one is and as the apply
  handler keeps it.
\<close>

theorem C7_override_replaces_endpoint:
  assumes "registry_ok s"
    and "applyChains input s = Some s'"
    and "input_parts (trim input) = [p]"
    and "parse_item p = Some (c, g)"
    and "map_of (configuredChains s) c = Some a"
  shows "registry_ok s'
       \<and> (\<forall>r. g = Some r \<and> r \<noteq> [] \<longrightarrow> config_of c s' = Some ((heap s a)\<lparr>rpc := Some r\<rparr>))
       \<and> (g = None \<and> map_of DEFAULT_CHAINS c = None \<longrightarrow>
            config_of c s' = Some ((heap s a)\<lparr>rpc := None\<rparr>))"
proof -
  have ok': "registry_ok s'"
    using applyChains_registry_ok [OF assms(1,2)] .
  have ta: "(heap s a)\<lparr>rpc := None\<rparr> = template c"
    using assms(1,5) by (simp add: registry_ok_def)
  have upd: "(heap s a)\<lparr>rpc := x\<rparr> = (template c)\<lparr>rpc := x\<rparr>" for x
    using arg_cong [OF ta, of "\<lambda>r. r\<lparr>rpc := x\<rparr>"] by simp
  show ?thesis
  proof (cases "map_of DEFAULT_CHAINS c")
    case None
    have "config_of c s' = Some \<lparr>chain_id = c, name = ''Chain '' @ show_nat c,
                          rpc = js_or g None, explorer = [], native = []\<rparr>"
      using applyChains_single [OF assms(2-4)]
      by (simp add: config_of_def store_item_custom [OF None] obj_spread_def map_of_obj_put)
    then show ?thesis
      using ok' by (auto simp: js_or_def upd template_custom [OF None])
  next
    case (Some d)
    have td: "(heap s d)\<lparr>rpc := None\<rparr> = template c"
      using assms(1) Some by (simp add: registry_ok_def)
    have updd: "(heap s d)\<lparr>rpc := x\<rparr> = (template c)\<lparr>rpc := x\<rparr>" for x
      using arg_cong [OF td, of "\<lambda>r. r\<lparr>rpc := x\<rparr>"] by simp
    have "config_of c s' = Some ((heap s d)\<lparr>rpc := js_or (case g of Some r \<Rightarrow> Some r | None \<Rightarrow> rpc (heap s d))
                                         (js_or (rpc (heap s d)) None)\<rparr>)"
      using applyChains_single [OF assms(2-4)]
      by (simp add: config_of_def store_item_builtin [OF Some] obj_spread_def map_of_obj_put)
    then show ?thesis
      using ok' Some by (auto simp: js_or_def upd updd)
  qed
qed

text \<open>The instance of claim C7: chain 137 of the initial registry and the entry \<^verbatim>\<open>137:https://x\<close>.\<close>

theorem C7_override_replaces_endpoint_witness:
  "\<exists>s'. applyChains ''137:https://x'' init = Some s'
      \<and> name (heap init 3) = ''Polygon''
      \<and> config_of 137 s' = Some \<lparr>chain_id = 137, name = ''Polygon'', rpc = Some ''https://x'',
                                  explorer = ''https://polygonscan.com/tx/'', native = ''MATIC''\<rparr>"
proof -
  obtain s' where ap: "applyChains ''137:https://x'' init = Some s'"
    using applyChains_defined [of "''137:https://x''" init] by (auto simp: string_eval)
  have parts: "input_parts (trim ''137:https://x'') = [''137:https://x'']"
    by (simp add: string_eval)
  have item: "parse_item ''137:https://x'' = Some (137, Some ''https://x'')"
    by (simp add: string_eval)
  have cfg: "map_of (configuredChains init) 137 = Some 3"
    by (simp add: registry_eval)
  have "config_of 137 s' = Some ((heap init 3)\<lparr>rpc := Some ''https://x''\<rparr>)"
    using C7_override_replaces_endpoint [OF registry_ok_init ap parts item cfg] by simp
  then show ?thesis using ap by (simp add: registry_eval)
qed





subsection \<open>The provider pool\<close>

lemma ensureProvider_cached:
  "map_of (providers s) c = Some p \<Longrightarrow> ensureProvider c s = (Inr p, s)"
  by (simp add: ensureProvider_def)

lemma ensureProvider_opens:
  assumes "map_of (providers s) c = None"
    and "map_of (configuredChains s) c = Some a"
    and "rpc (heap s a) = Some u"
    and "u \<noteq> []"
  shows "ensureProvider c s =
     (Inr \<lparr>prov_id = next_provider s, prov_url = u\<rparr>,
      s\<lparr>providers := obj_put c \<lparr>prov_id = next_provider s, prov_url = u\<rparr> (providers s),
        next_provider := Suc (next_provider s)\<rparr>)"
  using assms by (simp add: ensureProvider_def Let_def)

lemma ensureProvider_InrD:
  assumes "ensureProvider c s = (Inr q, s')"
  shows "(map_of (providers s) c = Some q \<and> s' = s)
       \<or> (map_of (providers s) c = None \<and> prov_id q = next_provider s
           \<and> (\<exists>a. map_of (configuredChains s) c = Some a \<and> rpc (heap s a) = Some (prov_url q))
           \<and> s' = s\<lparr>providers := obj_put c q (providers s), next_provider := Suc (next_provider s)\<rparr>)"
  using assms
  by (auto simp: ensureProvider_def Let_def split: option.splits if_splits)

lemma fresh_since_empty: "providers s = [] \<Longrightarrow> fresh_since (next_provider s) s"
  by (simp add: fresh_since_def)

lemma fresh_since_ensureProvider:
  assumes "fresh_since n s"
  shows "fresh_since n (snd (ensureProvider c s))"
proof (cases "ensureProvider c s")
  case (Pair r s')
  show ?thesis
  proof (cases r)
    case (Inl e)
    then have "s' = s" using Pair
      by (auto simp: ensureProvider_def Let_def split: option.splits if_splits)
    then show ?thesis using assms Pair by simp
  next
    case (Inr q)
    from ensureProvider_InrD [OF Pair [unfolded Inr]]
    show ?thesis
    proof (elim disjE conjE exE)
      assume "s' = s"
      then show ?thesis using assms Pair by simp
    next
      fix a
      assume q: "prov_id q = next_provider s"
        and a: "map_of (configuredChains s) c = Some a" "rpc (heap s a) = Some (prov_url q)"
        and s': "s' = s\<lparr>providers := obj_put c q (providers s), next_provider := Suc (next_provider s)\<rparr>"
      have "fresh_since n s'"
        using assms q a unfolding fresh_since_def s'
        by (auto simp: map_of_obj_put less_Suc_eq)
      then show ?thesis using Pair by simp
    qed
  qed
qed

lemma fresh_since_applyChainsToUI:
  assumes "fresh_since n s"
  shows "fresh_since n (applyChainsToUI s)"
proof -
  have sel: "fresh_since n (s\<lparr>chainSelectMain := x\<rparr>)" for x
    using assms by (simp add: fresh_since_def)
  have upd: "fresh_since n t \<Longrightarrow> fresh_since n (updateBalanceForSelectedChain t)" for t
    by (auto simp: updateBalanceForSelectedChain_def fresh_since_ensureProvider split: option.splits)
  show ?thesis
    by (auto simp: applyChainsToUI_def sel upd split: list.splits)
qed

lemma applyChains_fresh:
  assumes "applyChains input s = Some s'"
  shows "fresh_since (next_provider s) s'"
proof -
  have ne: "trim input \<noteq> []" using applyChains_SomeD(1) [OF assms] .
  obtain hp na where sh: "fst (parseChainsInput (trim input) s) = s\<lparr>heap := hp, next_addr := na\<rparr>"
    using parseChainsInput_shape by blast
  obtain parsed where pp: "parseChainsInput (trim input) s = (s\<lparr>heap := hp, next_addr := na\<rparr>, parsed)"
    using sh by (cases "parseChainsInput (trim input) s") auto
  have s': "s' = applyChainsToUI (s\<lparr>heap := hp, next_addr := na,
                  configuredChains := obj_spread (configuredChains s) parsed, providers := []\<rparr>)"
    using assms ne by (simp add: applyChains_def Let_def pp)
  have "fresh_since (next_provider s) (s\<lparr>heap := hp, next_addr := na,
                  configuredChains := obj_spread (configuredChains s) parsed, providers := []\<rparr>)"
    by (simp add: fresh_since_def)
  then show ?thesis unfolding s' by (rule fresh_since_applyChainsToUI)
qed

lemma pool_ok_init: "pool_ok init"
  by (simp add: pool_ok_def registry_eval)

lemma pool_ok_ensureProvider: "pool_ok s \<Longrightarrow> pool_ok (snd (ensureProvider c s))"
  by (auto simp: pool_ok_def ensureProvider_def Let_def map_of_obj_put less_Suc_eq
      split: option.splits if_splits)

lemma pool_ok_unlock: "pool_ok s \<Longrightarrow> pool_ok (unlock address s)"
proof -
  have "pool_ok s \<Longrightarrow> pool_ok (s\<lparr>wallet := Some address\<rparr>)" by (simp add: pool_ok_def)
  then show "pool_ok s \<Longrightarrow> pool_ok (unlock address s)"
    by (auto simp: unlock_def updateBalanceForSelectedChain_def pool_ok_ensureProvider
        split: option.splits)
qed

lemma fresh_since_pool_ok: "fresh_since n s \<Longrightarrow> pool_ok s"
  by (simp add: fresh_since_def pool_ok_def)

text \<open>
  Claim C9: for a chain configured with a non-empty endpoint, \<^verbatim>\<open>ensureProvider\<close> returns a
  handle, and returns the same handle when called again; and after the apply handler has
  run, no handle that was in the pool before is returned for any chain: the handle
  returned then was opened after the handler dropped the pool, on the endpoint the chain is
  configured with now. This holds in every pool that is \<open>pool_ok\<close>, as the initial one is
  and as \<^verbatim>\<open>ensureProvider\<close> and the apply handler keep it.
\<close>

theorem C9_provider_cache:
  assumes "pool_ok s"
  shows "(\<forall>c a u. map_of (configuredChains s) c = Some a \<and> rpc (heap s a) = Some u \<and> u \<noteq> [] \<longrightarrow>
            (\<exists>p s1. ensureProvider c s = (Inr p, s1) \<and> ensureProvider c s1 = (Inr p, s1)))
       \<and> (\<forall>input s' c q s''. applyChains input s = Some s' \<and> ensureProvider c s' = (Inr q, s'') \<longrightarrow>
            (\<forall>c0 p. map_of (providers s) c0 = Some p \<longrightarrow> q \<noteq> p)
            \<and> next_provider s \<le> prov_id q
            \<and> map_option rpc (config_of c s') = Some (Some (prov_url q))
            \<and> pool_ok s' \<and> pool_ok s'')"
proof (intro conjI allI impI)
  fix c a u
  assume h: "map_of (configuredChains s) c = Some a \<and> rpc (heap s a) = Some u \<and> u \<noteq> []"
  show "\<exists>p s1. ensureProvider c s = (Inr p, s1) \<and> ensureProvider c s1 = (Inr p, s1)"
  proof (cases "map_of (providers s) c")
    case (Some p)
    then show ?thesis using ensureProvider_cached by blast
  next
    case None
    let ?p = "\<lparr>prov_id = next_provider s, prov_url = u\<rparr>"
    let ?s1 = "s\<lparr>providers := obj_put c ?p (providers s), next_provider := Suc (next_provider s)\<rparr>"
    have 1: "ensureProvider c s = (Inr ?p, ?s1)"
      using ensureProvider_opens [OF None] h by simp
    have 2: "ensureProvider c ?s1 = (Inr ?p, ?s1)"
      by (rule ensureProvider_cached) (simp add: map_of_obj_put)
    show ?thesis using 1 2 by blast
  qed
next
  fix input s' c q s''
  assume h: "applyChains input s = Some s' \<and> ensureProvider c s' = (Inr q, s'')"
  then have fr: "fresh_since (next_provider s) s'"
    using applyChains_fresh by blast
  have q: "next_provider s \<le> prov_id q
           \<and> (\<exists>a. map_of (configuredChains s') c = Some a \<and> rpc (heap s' a) = Some (prov_url q))"
    using ensureProvider_InrD [of c s' q s''] h fr unfolding fresh_since_def by auto
  show "next_provider s \<le> prov_id q" using q by simp
  show "map_option rpc (config_of c s') = Some (Some (prov_url q))"
    using q by (auto simp: config_of_def)
  show ok: "pool_ok s'" using fr by (rule fresh_since_pool_ok)
  show "pool_ok s''" using pool_ok_ensureProvider [OF ok, of c] h by simp
  fix c0 p
  assume "map_of (providers s) c0 = Some p"
  then have "prov_id p < next_provider s" using assms by (auto simp: pool_ok_def)
  then show "q \<noteq> p" using q by auto
qed

text \<open>
  The instance of claim C9: with a wallet unlocked, the pool holds the handle of chain 1;
  chain 137 gets the same handle twice, and after applying \<^verbatim>\<open>137:https://x\<close> it gets a
  new handle, on the new endpoint.
\<close>

theorem C9_provider_cache_witness:
  "map_of (providers (unlock ''0xaa'' init)) 1
      = Some \<lparr>prov_id = 0, prov_url = ''https://cloudflare-eth.com''\<rparr>
   \<and> (\<exists>p s1. ensureProvider 137 (unlock ''0xaa'' init) = (Inr p, s1)
            \<and> ensureProvider 137 s1 = (Inr p, s1))
   \<and> (\<exists>s' s''. applyChains ''137:https://x'' (unlock ''0xaa'' init) = Some s'
            \<and> ensureProvider 137 s' = (Inr \<lparr>prov_id = 2, prov_url = ''https://x''\<rparr>, s'')
            \<and> \<lparr>prov_id = 2, prov_url = ''https://x''\<rparr> \<noteq> \<lparr>prov_id = 0, prov_url = ''https://cloudflare-eth.com''\<rparr>)"
proof -
  let ?s = "unlock ''0xaa'' init"
  have pool: "pool_ok ?s"
    using pool_ok_unlock [OF pool_ok_init] .
  have p1: "map_of (providers ?s) 1 = Some \<lparr>prov_id = 0, prov_url = ''https://cloudflare-eth.com''\<rparr>"
    by (simp add: registry_eval)
  have cfg: "map_of (configuredChains ?s) 137 = Some 3 \<and> rpc (heap ?s 3) = Some ''https://polygon-rpc.com''
      \<and> ''https://polygon-rpc.com'' \<noteq> []"
    by (simp add: registry_eval)
  obtain s' where ap: "applyChains ''137:https://x'' ?s = Some s'"
    using applyChains_defined [of "''137:https://x''" ?s] by (auto simp: string_eval)
  have ens: "fst (ensureProvider 137 s') = Inr \<lparr>prov_id = 2, prov_url = ''https://x''\<rparr>"
    using ap by (auto simp: string_eval registry_eval)
  then obtain s'' where ens': "ensureProvider 137 s' = (Inr \<lparr>prov_id = 2, prov_url = ''https://x''\<rparr>, s'')"
    by (cases "ensureProvider 137 s'") auto
  note main = C9_provider_cache [OF pool]
  have a: "\<exists>p s1. ensureProvider 137 ?s = (Inr p, s1) \<and> ensureProvider 137 s1 = (Inr p, s1)"
    using main cfg by blast
  have b: "\<lparr>prov_id = 2, prov_url = ''https://x''\<rparr> \<noteq> \<lparr>prov_id = 0, prov_url = ''https://cloudflare-eth.com''\<rparr>"
    using main ap ens' p1 by blast
  show ?thesis using p1 a ap ens' b by blast
qed

text \<open>
  Claim C10: for a chain id of the built-in set, applying an entry that supplies an endpoint
  writes that endpoint into the built-in object itself (\<open>meta\<close> is the object, not a copy),
  so that a later entry for the same id that supplies no endpoint gets the endpoint supplied
  last, not the original built-in one.
\<close>

theorem C10_builtin_object_mutated:
  assumes "map_of DEFAULT_CHAINS c = Some d"
    and "applyChains input1 s = Some s1"
    and "input_parts (trim input1) = [p1]"
    and "parse_item p1 = Some (c, Some r)"
    and "r \<noteq> []"
    and "applyChains input2 s1 = Some s2"
    and "input_parts (trim input2) = [p2]"
    and "parse_item p2 = Some (c, None)"
  shows "rpc (heap s1 d) = Some r \<and> map_option rpc (config_of c s2) = Some (Some r)"
proof -
  have 1: "rpc (heap s1 d) = Some r"
    using applyChains_single(1) [OF assms(2-4)] assms(5)
    by (simp add: store_item_builtin [OF assms(1)] js_or_def)
  have 2: "map_option rpc (config_of c s2) = Some (Some r)"
    using applyChains_single [OF assms(6-8)] 1 assms(5)
    by (simp add: config_of_def store_item_builtin [OF assms(1)] js_or_def obj_spread_def map_of_obj_put)
  show ?thesis using 1 2 by simp
qed

text \<open>
  The instance of claim C10: after \<^verbatim>\<open>137:https://x\<close>, the built-in object of chain 137 (at
  address 3) no longer holds \<^verbatim>\<open>https://polygon-rpc.com\<close>, and the entry \<^verbatim>\<open>137\<close> yields
  \<^verbatim>\<open>https://x\<close>.
\<close>

theorem C10_builtin_object_mutated_witness:
  "rpc (heap init 3) = Some ''https://polygon-rpc.com''
   \<and> (\<exists>s1 s2. applyChains ''137:https://x'' init = Some s1 \<and> applyChains ''137'' s1 = Some s2
         \<and> rpc (heap s1 3) = Some ''https://x''
         \<and> map_option rpc (config_of 137 s2) = Some (Some ''https://x''))"
proof -
  obtain s1 where a1: "applyChains ''137:https://x'' init = Some s1"
    using applyChains_defined [of "''137:https://x''" init] by (auto simp: string_eval)
  obtain s2 where a2: "applyChains ''137'' s1 = Some s2"
    using applyChains_defined [of "''137''" s1] by (auto simp: string_eval)
  have d: "map_of DEFAULT_CHAINS 137 = Some 3" by (simp add: DEFAULT_CHAINS_def)
  have i1: "input_parts (trim ''137:https://x'') = [''137:https://x'']" by (simp add: string_eval)
  have p1: "parse_item ''137:https://x'' = Some (137, Some ''https://x'')" by (simp add: string_eval)
  have i2: "input_parts (trim ''137'') = [''137'']" by (simp add: string_eval)
  have p2: "parse_item ''137'' = Some (137, None)" by (simp add: string_eval)
  have r: "''https://x'' \<noteq> []" by simp
  have 0: "rpc (heap init 3) = Some ''https://polygon-rpc.com''" by (simp add: registry_eval)
  show ?thesis
    using C10_builtin_object_mutated [OF d a1 i1 p1 r a2 i2 p2] a1 a2 0 by blast
qed



subsection \<open>Deduplication\<close>

lemma recordActivity_seen:
  "txHash i = Some h \<Longrightarrow> h \<noteq> [] \<Longrightarrow> h \<in> seenTxs s \<Longrightarrow> recordActivity c i s = s"
  by (simp add: recordActivity_def)

lemma recordActivity_new:
  "txHash i = Some h \<Longrightarrow> h \<noteq> [] \<Longrightarrow> h \<notin> seenTxs s \<Longrightarrow>
   recordActivity c i s = s\<lparr>seenTxs := insert h (seenTxs s), activity := (c, i) # activity s\<rparr>"
  by (simp add: recordActivity_def)

lemma recordActivity_no_hash:
  "\<not> truthy (txHash i) \<Longrightarrow> recordActivity c i s = s\<lparr>activity := (c, i) # activity s\<rparr>"
  by (cases "txHash i") (simp_all add: recordActivity_def)

lemma recordActivity_other:
  assumes "txHash i \<noteq> Some h"
  shows "(h \<in> seenTxs (recordActivity c i s) \<longleftrightarrow> h \<in> seenTxs s)"
    and "filter (has_hash h) (activity (recordActivity c i s)) = filter (has_hash h) (activity s)"
  using assms by (auto simp: recordActivity_def has_hash_def split: option.splits)

lemma record_all_Cons: "record_all ((c, i) # calls) s = record_all calls (recordActivity c i s)"
  by (simp add: record_all_def)

lemma record_all_hash:
  assumes "h \<noteq> []"
  shows "filter (has_hash h) (activity (record_all calls s))
           = (if h \<in> seenTxs s then [] else take 1 (filter (has_hash h) calls))
             @ filter (has_hash h) (activity s)
         \<and> (h \<in> seenTxs (record_all calls s) \<longleftrightarrow> h \<in> seenTxs s \<or> filter (has_hash h) calls \<noteq> [])"
proof (induction calls arbitrary: s)
  case Nil
  show ?case by (simp add: record_all_def)
next
  case (Cons e calls)
  obtain c i where e: "e = (c, i)" by (cases e)
  note IH = Cons.IH [of "recordActivity c i s"]
  show ?case
  proof (cases "txHash i = Some h")
    case False
    then have "\<not> has_hash h e" by (simp add: has_hash_def e)
    then show ?thesis
      using IH recordActivity_other [OF False, of c s] by (simp add: e record_all_Cons)
  next
    case True
    then have hh: "has_hash h e" by (simp add: has_hash_def e)
    show ?thesis
    proof (cases "h \<in> seenTxs s")
      case True
      then show ?thesis
        using IH hh recordActivity_seen [OF \<open>txHash i = Some h\<close> assms True, of c]
        by (simp add: e record_all_Cons)
    next
      case False
      then show ?thesis
        using IH hh recordActivity_new [OF \<open>txHash i = Some h\<close> assms False, of c]
        by (simp add: e record_all_Cons has_hash_def)
    qed
  qed
qed

text \<open>
  Claim C5: in every sequence of \<^verbatim>\<open>recordActivity\<close> calls, whatever their chains, a hash
  \<open>h\<close> (a non-empty string, not seen before) that is presented at least once is forwarded
  exactly once, by the first call that presents it; the calls that present it afterwards
  change nothing.
\<close>

theorem C5_forwarded_exactly_once:
  assumes "h \<noteq> []"
    and "h \<notin> seenTxs s"
    and "filter (has_hash h) calls \<noteq> []"
  shows "filter (has_hash h) (activity (record_all calls s))
           = hd (filter (has_hash h) calls) # filter (has_hash h) (activity s)
       \<and> (\<forall>c i. txHash i = Some h \<longrightarrow>
             recordActivity c i (record_all calls s) = record_all calls s)"
proof -
  have "take 1 (filter (has_hash h) calls) = [hd (filter (has_hash h) calls)]"
    using assms(3) by (cases "filter (has_hash h) calls") simp_all
  then have 1: "filter (has_hash h) (activity (record_all calls s))
           = hd (filter (has_hash h) calls) # filter (has_hash h) (activity s)"
    using record_all_hash [OF assms(1), of calls s] assms(2) by simp
  have "h \<in> seenTxs (record_all calls s)"
    using record_all_hash [OF assms(1), of calls s] assms(3) by simp
  then have 2: "\<forall>c i. txHash i = Some h \<longrightarrow>
             recordActivity c i (record_all calls s) = record_all calls s"
    using recordActivity_seen assms(1) by blast
  show ?thesis using 1 2 by simp
qed

text \<open>
  The instance of claim C5: the hash \<^verbatim>\<open>0xabc\<close> presented by chain 56, then another hash, then
  \<^verbatim>\<open>0xabc\<close> again by chain 137.
\<close>

theorem C5_forwarded_exactly_once_witness:
  "filter (has_hash ''0xabc'') (activity (record_all
      [(56, erc20_info ''0xT'' ''0xbb'' ''0xaa'' 5 18 (Some ''0xabc'')),
       (56, erc20_info ''0xT'' ''0xbb'' ''0xaa'' 7 18 (Some ''0xdef'')),
       (137, erc20_info ''0xT'' ''0xcc'' ''0xaa'' 9 18 (Some ''0xabc''))] init))
     = [(56, erc20_info ''0xT'' ''0xbb'' ''0xaa'' 5 18 (Some ''0xabc''))]"
proof -
  let ?calls = "[(56::nat, erc20_info ''0xT'' ''0xbb'' ''0xaa'' 5 18 (Some ''0xabc'')),
       (56, erc20_info ''0xT'' ''0xbb'' ''0xaa'' 7 18 (Some ''0xdef'')),
       (137, erc20_info ''0xT'' ''0xcc'' ''0xaa'' 9 18 (Some ''0xabc''))]"
  have a: "''0xabc'' \<noteq> []" by simp
  have b: "''0xabc'' \<notin> seenTxs init" by (simp add: registry_eval)
  have f: "filter (has_hash ''0xabc'') ?calls
      = [(56, erc20_info ''0xT'' ''0xbb'' ''0xaa'' 5 18 (Some ''0xabc'')),
         (137, erc20_info ''0xT'' ''0xcc'' ''0xaa'' 9 18 (Some ''0xabc''))]"
    by (simp add: has_hash_def erc20_info_def)
  have c: "filter (has_hash ''0xabc'') ?calls \<noteq> []" unfolding f by simp
  have e: "filter (has_hash ''0xabc'') (activity init) = []" by (simp add: registry_eval)
  note main = C5_forwarded_exactly_once [OF a b c, unfolded f e]
  show ?thesis
    using main by simp
qed

subsection \<open>Scanning a transaction\<close>

text \<open>
  Claim C1, as stated, fails: a transaction to the watched address \<^verbatim>\<open>0xaa\<close> from the
  configured counterparty \<^verbatim>\<open>0xbb\<close> is scanned by the poller of chain 1, and the activity
  list receives one event only, of kind \<open>Native\<close>; the \<open>SitePayment\<close> event for the same
  hash is dropped by \<^verbatim>\<open>recordActivity\<close>.
\<close>

theorem C1_counterexample:
  "map_option activity
     (run [Unlock ''0xaa'', StartMonitoring [1] '''' ''0xbb'', Tick 1,
           Settle 1 (RBlock \<lparr>number = 100, transactions = []\<rparr>),
           Settle 1 (RBlock \<lparr>number = 100, transactions =
             [\<lparr>tx_from = Some ''0xbb'', tx_to = Some ''0xaa'', tx_value = 5,
               tx_hash = Some ''0xabc''\<rparr>]\<rparr>)] init)
   = Some [(1, \<lparr>type = Native, token = None, info_from = Some ''0xbb'', info_to = Some ''0xaa'',
                amount = FormatUnits 5 18, txHash = Some ''0xabc''\<rparr>)]"
  by (simp add: exec_def string_eval registry_eval startMonitoring_def start_chain_def
      start_poller_def await_def poll_tick_def resume_def poll_latest_def poll_block_def
      set_polledBlock_def scan_tx_def recordActivity_def native_info_def site_info_def
      formatEther_def)

text \<open>
  Claim C1, amended: for a transaction whose destination is the watched address and whose
  source is the configured counterparty, the poller calls \<^verbatim>\<open>recordActivity\<close> for a \<open>Native\<close>
  and then for a \<open>SitePayment\<close> event, and the two share the dedup key, the hash alone: with
  a (non-empty) hash only the \<open>Native\<close> event is delivered, and none when the hash was seen
  before; both events are delivered only for a transaction without a hash.
\<close>

theorem C1_shared_dedup_key:
  assumes "wallet s = Some w"
    and "same_address (tx_to t) w"
    and "site \<noteq> []"
    and "same_address (tx_from t) site"
  shows "\<exists>s'. scan_tx c (Some site) t s = Inr s' \<and>
           activity s' =
             (if truthy (tx_hash t)
              then (if the (tx_hash t) \<in> seenTxs s then activity s
                    else (c, native_info t) # activity s)
              else (c, site_info t) # (c, native_info t) # activity s)"
proof -
  have to: "truthy (tx_to t)"
    using assms(2) by (cases "tx_to t") (simp_all add: same_address_def)
  have hn: "txHash (native_info t) = tx_hash t" and hs: "txHash (site_info t) = tx_hash t"
    by (simp_all add: native_info_def site_info_def)
  have sc: "scan_tx c (Some site) t s
      = Inr (recordActivity c (site_info t) (recordActivity c (native_info t) s))"
    using assms to by (simp add: scan_tx_def)
  show ?thesis
  proof (cases "truthy (tx_hash t)")
    case False
    then show ?thesis
      using sc by (simp add: recordActivity_no_hash hn hs)
  next
    case True
    then obtain h where h: "tx_hash t = Some h" "h \<noteq> []"
      by (cases "tx_hash t") auto
    show ?thesis
    proof (cases "h \<in> seenTxs s")
      case True
      then show ?thesis
        using sc h by (simp add: recordActivity_seen hn hs)
    next
      case False
      have 1: "recordActivity c (native_info t) s
                = s\<lparr>seenTxs := insert h (seenTxs s), activity := (c, native_info t) # activity s\<rparr>"
        using recordActivity_new [of "native_info t" h s c] h False hn by simp
      have 2: "recordActivity c (site_info t) (recordActivity c (native_info t) s)
                = recordActivity c (native_info t) s"
        unfolding 1 using recordActivity_seen [of "site_info t" h _ c] h hs by simp
      show ?thesis using sc h False by (simp add: 2) (simp add: 1)
    qed
  qed
qed

text \<open>
  The instance of claim C1: the transaction of the counterexample, scanned with the wallet
  \<^verbatim>\<open>0xaa\<close> unlocked and nothing seen yet.
\<close>

theorem C1_shared_dedup_key_witness:
  "\<exists>s'. scan_tx 1 (Some ''0xbb'')
           \<lparr>tx_from = Some ''0xbb'', tx_to = Some ''0xaa'', tx_value = 5, tx_hash = Some ''0xabc''\<rparr>
           (unlock ''0xaa'' init) = Inr s'
      \<and> activity s' = [(1, native_info
           \<lparr>tx_from = Some ''0xbb'', tx_to = Some ''0xaa'', tx_value = 5, tx_hash = Some ''0xabc''\<rparr>)]"
proof -
  let ?t = "\<lparr>tx_from = Some ''0xbb'', tx_to = Some ''0xaa'', tx_value = 5, tx_hash = Some ''0xabc''\<rparr>"
  let ?s = "unlock ''0xaa'' init"
  have a: "wallet ?s = Some ''0xaa''" by (simp add: registry_eval)
  have b: "same_address (tx_to ?t) ''0xaa''" by (simp add: string_eval)
  have c: "''0xbb'' \<noteq> []" by simp
  have d: "same_address (tx_from ?t) ''0xbb''" by (simp add: string_eval)
  have e: "seenTxs ?s = {}" "activity ?s = []" by (simp_all add: registry_eval)
  show ?thesis
    using C1_shared_dedup_key [OF a b c d, of 1] by (simp add: e)
qed



subsection \<open>The block poller\<close>











lemmas monitor_eval = exec_def startMonitoring_def start_chain_def start_poller_def await_def
  poll_tick_def resume_def poll_latest_def poll_block_def set_polledBlock_def scan_tx_def
  recordActivity_def native_info_def site_info_def formatEther_def subscribeTokenTransfer_def
  sub_block_number_def sub_logs_def sub_decimals_def attach_def fromBlock_def
  stopMonitoring_def stop_chain_def off_def obj_delete_def listener_pairs_def


subsection \<open>Starting a session\<close>


subsection \<open>Token subscriptions\<close>






subsection \<open>Stopping a session\<close>

lemma obj_delete_absent: "map_of xs c = None \<Longrightarrow> obj_delete c xs = xs"
  by (induction xs) (auto simp: obj_delete_def split: if_splits)

lemma fold_obj_delete:
  "fold obj_delete ks xs = filter (\<lambda>kv. fst kv \<notin> set ks) xs"
proof (induction ks arbitrary: xs)
  case Nil
  show ?case by simp
next
  case (Cons k ks)
  have "filter (\<lambda>kv. fst kv \<notin> set ks) (obj_delete k xs) = filter (\<lambda>kv. fst kv \<notin> set (k # ks)) xs"
    by (induction xs) (auto simp: obj_delete_def)
  then show ?case using Cons.IH [of "obj_delete k xs"] by simp
qed

lemma off_shape: "\<exists>ls. off lid s = s\<lparr>listeners := ls\<rparr> \<and> set ls \<subseteq> set (listeners s)"
proof (cases "wallet s")
  case None
  have "off lid s = s\<lparr>listeners := listeners s\<rparr>" using None by (simp add: off_def)
  then show ?thesis by blast
next
  case (Some w)
  have "off lid s = s\<lparr>listeners := filter (\<lambda>(i, l). \<not> (i = lid \<and> toLowerCase (l_filter_to l) = toLowerCase w)) (listeners s)\<rparr>"
    using Some by (simp add: off_def)
  then show ?thesis by (metis filter_is_subset)
qed

lemma fold_off_shape:
  "\<exists>ls. fold off lids s = s\<lparr>listeners := ls\<rparr> \<and> set ls \<subseteq> set (listeners s)"
proof (induction lids arbitrary: s)
  case Nil
  have "fold off [] s = s\<lparr>listeners := listeners s\<rparr>" by simp
  then show ?case by blast
next
  case (Cons lid lids)
  obtain l1 where 1: "off lid s = s\<lparr>listeners := l1\<rparr>" "set l1 \<subseteq> set (listeners s)"
    using off_shape by blast
  obtain l2 where 2: "fold off lids (s\<lparr>listeners := l1\<rparr>) = s\<lparr>listeners := l1\<rparr>\<lparr>listeners := l2\<rparr>"
      "set l2 \<subseteq> set (listeners (s\<lparr>listeners := l1\<rparr>))"
    using Cons.IH by blast
  have "fold off (lid # lids) s = s\<lparr>listeners := l2\<rparr>" using 1 2 by simp
  moreover have "set l2 \<subseteq> set (listeners s)" using 1 2 by auto
  ultimately show ?case by blast
qed

lemma off_removes:
  assumes "wallet s = Some w"
    and "(lid, l) \<in> set (listeners (off lid s))"
  shows "toLowerCase (l_filter_to l) \<noteq> toLowerCase w"
  using assms by (auto simp: off_def)

lemma fold_off_removes:
  assumes "wallet s = Some w"
    and "lid \<in> set lids"
    and "(lid, l) \<in> set (listeners (fold off lids s))"
  shows "toLowerCase (l_filter_to l) \<noteq> toLowerCase w"
  using assms
proof (induction lids arbitrary: s)
  case Nil
  then show ?case by simp
next
  case (Cons x lids)
  obtain l1 where 1: "off x s = s\<lparr>listeners := l1\<rparr>" "set l1 \<subseteq> set (listeners s)"
    using off_shape by blast
  have w1: "wallet (off x s) = Some w" using 1 Cons.prems(1) by simp
  show ?case
  proof (cases "lid = x")
    case True
    obtain l2 where 2: "fold off lids (off x s) = (off x s)\<lparr>listeners := l2\<rparr>"
        "set l2 \<subseteq> set (listeners (off x s))"
      using fold_off_shape by blast
    have "(lid, l) \<in> set (listeners (off lid s))"
      using Cons.prems(3) 2 True by auto
    then show ?thesis using off_removes [OF Cons.prems(1)] by blast
  next
    case False
    then have "lid \<in> set lids" using Cons.prems(2) by simp
    then show ?thesis using Cons.IH [OF w1] Cons.prems(3) by simp
  qed
qed

lemma stop_chain_effect:
  "pending (stop_chain c s) = pending s \<and>
   activity (stop_chain c s) = activity s \<and>
   wallet (stop_chain c s) = wallet s \<and>
   monitors (stop_chain c s) = obj_delete c (monitors s) \<and>
   intervals (stop_chain c s) \<subseteq> intervals s \<and>
   set (listeners (stop_chain c s)) \<subseteq> set (listeners s) \<and>
   pollers (stop_chain c s) = pollers s \<and>
   seenTxs (stop_chain c s) = seenTxs s"
proof (cases "map_of (monitors s) c")
  case None
  then show ?thesis by (simp add: stop_chain_def obj_delete_absent)
next
  case (Some mon)
  obtain ls where ls: "fold off (tokenListeners mon) s = s\<lparr>listeners := ls\<rparr>"
      "set ls \<subseteq> set (listeners s)"
    using fold_off_shape by blast
  show ?thesis
    using Some ls by (cases "pollHandle mon") (auto simp: stop_chain_def Let_def)
qed

lemma stop_chain_frame:
  "pending (stop_chain c s) = pending s"
  "activity (stop_chain c s) = activity s"
  "wallet (stop_chain c s) = wallet s"
  "monitors (stop_chain c s) = obj_delete c (monitors s)"
  "intervals (stop_chain c s) \<subseteq> intervals s"
  "set (listeners (stop_chain c s)) \<subseteq> set (listeners s)"
  "pollers (stop_chain c s) = pollers s"
  "seenTxs (stop_chain c s) = seenTxs s"
  using stop_chain_effect [of c s] by blast+

lemma stop_chain_clears:
  assumes "map_of (monitors s) c = Some m"
  shows "pollHandle m = Some h \<Longrightarrow> h \<notin> intervals (stop_chain c s)"
    and "wallet s = Some w \<Longrightarrow> lid \<in> set (tokenListeners m) \<Longrightarrow>
         (lid, l) \<in> set (listeners (stop_chain c s)) \<Longrightarrow>
         toLowerCase (l_filter_to l) \<noteq> toLowerCase w"
proof -
  obtain ls where ls: "fold off (tokenListeners m) s = s\<lparr>listeners := ls\<rparr>"
    using fold_off_shape by blast
  show "pollHandle m = Some h \<Longrightarrow> h \<notin> intervals (stop_chain c s)"
    using assms ls by (simp add: stop_chain_def Let_def)
  assume w: "wallet s = Some w" and lid: "lid \<in> set (tokenListeners m)"
    and mem: "(lid, l) \<in> set (listeners (stop_chain c s))"
  have "listeners (stop_chain c s) = listeners (fold off (tokenListeners m) s)"
    using assms ls by (cases "pollHandle m") (simp_all add: stop_chain_def Let_def)
  then show "toLowerCase (l_filter_to l) \<noteq> toLowerCase w"
    using fold_off_removes [OF w lid] mem by simp
qed

lemma fold_stop_chain_frame:
  "pending (fold stop_chain ks s) = pending s"
  "activity (fold stop_chain ks s) = activity s"
  "wallet (fold stop_chain ks s) = wallet s"
  "monitors (fold stop_chain ks s) = fold obj_delete ks (monitors s)"
  "intervals (fold stop_chain ks s) \<subseteq> intervals s"
  "set (listeners (fold stop_chain ks s)) \<subseteq> set (listeners s)"
  "pollers (fold stop_chain ks s) = pollers s"
  "seenTxs (fold stop_chain ks s) = seenTxs s"
proof (induction ks arbitrary: s)
  case Nil
  { case 1 show ?case by simp }
  { case 2 show ?case by simp }
  { case 3 show ?case by simp }
  { case 4 show ?case by simp }
  { case 5 show ?case by simp }
  { case 6 show ?case by simp }
  { case 7 show ?case by simp }
  { case 8 show ?case by simp }
next
  case (Cons k ks)
  { case 1 show ?case using Cons.IH(1) [of "stop_chain k s"] by (simp add: stop_chain_frame) }
  { case 2 show ?case using Cons.IH(2) [of "stop_chain k s"] by (simp add: stop_chain_frame) }
  { case 3 show ?case using Cons.IH(3) [of "stop_chain k s"] by (simp add: stop_chain_frame) }
  { case 4 show ?case using Cons.IH(4) [of "stop_chain k s"] by (simp add: stop_chain_frame) }
  { case 5 show ?case using Cons.IH(5) [of "stop_chain k s"] stop_chain_frame(5) [of k s] by auto }
  { case 6 show ?case using Cons.IH(6) [of "stop_chain k s"] stop_chain_frame(6) [of k s] by auto }
  { case 7 show ?case using Cons.IH(7) [of "stop_chain k s"] by (simp add: stop_chain_frame) }
  { case 8 show ?case using Cons.IH(8) [of "stop_chain k s"] by (simp add: stop_chain_frame) }
qed

lemma fold_stop_chain_clears:
  assumes "c \<in> set ks"
    and "map_of (monitors s) c = Some m"
  shows "pollHandle m = Some h \<Longrightarrow> h \<notin> intervals (fold stop_chain ks s)"
    and "wallet s = Some w \<Longrightarrow> lid \<in> set (tokenListeners m) \<Longrightarrow>
         (lid, l) \<in> set (listeners (fold stop_chain ks s)) \<Longrightarrow>
         toLowerCase (l_filter_to l) \<noteq> toLowerCase w"
  using assms
proof (induction ks arbitrary: s)
  case Nil
  { case 1 then show ?case by simp }
  { case 2 then show ?case by simp }
next
  case (Cons k ks)
  { case 1
    show ?case
    proof (cases "k = c")
      case True
      have "h \<notin> intervals (stop_chain c s)"
        using stop_chain_clears(1) [OF 1(3) 1(1)] .
      then show ?thesis
        using fold_stop_chain_frame(5) [of ks "stop_chain c s"] True by auto
    next
      case False
      have "map_of (monitors (stop_chain k s)) c = Some m"
        using 1(3) False by (simp add: stop_chain_frame map_of_obj_delete)
      moreover have "c \<in> set ks" using 1(2) False by simp
      ultimately show ?thesis using Cons.IH(1) [OF 1(1)] by simp
    qed }
  { case 2
    show ?case
    proof (cases "k = c")
      case True
      have "(lid, l) \<in> set (listeners (stop_chain c s))"
        using 2(3) fold_stop_chain_frame(6) [of ks "stop_chain c s"] True by auto
      then show ?thesis
        using stop_chain_clears(2) [OF 2(5) 2(1) 2(2)] by blast
    next
      case False
      have "map_of (monitors (stop_chain k s)) c = Some m"
        using 2(5) False by (simp add: stop_chain_frame map_of_obj_delete)
      moreover have "c \<in> set ks" using 2(4) False by simp
      moreover have "wallet (stop_chain k s) = Some w" using 2(1) by (simp add: stop_chain_frame)
      ultimately show ?thesis using Cons.IH(2) [OF _ 2(2)] 2(3) by simp
    qed }
qed



text \<open>
  Claim C2, as stated, fails: the poller of chain 1 has a block fetch in flight when
  \<^verbatim>\<open>stopMonitoring\<close> runs. After the stop the session is empty and nothing has been
  delivered; when the fetch completes, its transaction to the watched address is delivered
  all the same.
\<close>

theorem C2_counterexample:
  "map_option monitors
     (run [Unlock ''0xaa'', StartMonitoring [1] '''' '''', Tick 1,
           Settle 1 (RBlock \<lparr>number = 100, transactions = []\<rparr>), StopMonitoring] init)
   = Some []
   \<and> map_option activity
     (run [Unlock ''0xaa'', StartMonitoring [1] '''' '''', Tick 1,
           Settle 1 (RBlock \<lparr>number = 100, transactions = []\<rparr>), StopMonitoring] init)
   = Some []
   \<and> map_option activity
     (run [Unlock ''0xaa'', StartMonitoring [1] '''' '''', Tick 1,
           Settle 1 (RBlock \<lparr>number = 100, transactions = []\<rparr>), StopMonitoring,
           Settle 1 (RBlock \<lparr>number = 100, transactions =
             [\<lparr>tx_from = Some ''0xbb'', tx_to = Some ''0xaa'', tx_value = 5,
               tx_hash = Some ''0xabc''\<rparr>]\<rparr>)] init)
   = Some [(1, \<lparr>type = Native, token = None, info_from = Some ''0xbb'', info_to = Some ''0xaa'',
                amount = FormatUnits 5 18, txHash = Some ''0xabc''\<rparr>)]"
  by (simp add: string_eval registry_eval monitor_eval)

text \<open>
  Claim C2, amended: \<^verbatim>\<open>stopMonitoring\<close> empties \<^verbatim>\<open>monitors\<close> and delivers nothing itself;
  it clears the timer recorded for every chain, so that no further tick of a canceled
  poller starts, and it detaches every recorded listener whose filter was built from the
  address of the wallet unlocked now, so that no further call of it starts. It does not
  touch the continuations that wait for an RPC reply: each of them stays pending and runs
  when its reply arrives, as if the session had not been stopped.
\<close>

theorem C2_stop_keeps_in_flight:
  "monitors (stopMonitoring s) = []
   \<and> activity (stopMonitoring s) = activity s
   \<and> pending (stopMonitoring s) = pending s
   \<and> (\<forall>c m h. map_of (monitors s) c = Some m \<and> pollHandle m = Some h \<longrightarrow>
         exec (Tick h) (stopMonitoring s) = None)
   \<and> (\<forall>c m lid w. map_of (monitors s) c = Some m \<and> lid \<in> set (tokenListeners m)
         \<and> wallet s = Some w
         \<and> (\<forall>l. (lid, l) \<in> set (listeners s) \<longrightarrow> toLowerCase (l_filter_to l) = toLowerCase w) \<longrightarrow>
         (\<forall>f t v hh. exec (Transfer lid f t v hh) (stopMonitoring s) = None))
   \<and> (\<forall>i r. i < length (pending s) \<longrightarrow>
         exec (Settle i r) (stopMonitoring s)
           = resume (pending s ! i) r
               ((stopMonitoring s)\<lparr>pending := take i (pending s) @ drop (Suc i) (pending s)\<rparr>))"
proof (intro conjI allI impI)
  let ?ks = "map fst (monitors s)"
  have st: "stopMonitoring s = fold stop_chain ?ks s" by (simp add: stopMonitoring_def)
  show "monitors (stopMonitoring s) = []"
    unfolding st fold_stop_chain_frame(4) fold_obj_delete by (simp add: filter_empty_conv)
  show "activity (stopMonitoring s) = activity s"
    unfolding st by (rule fold_stop_chain_frame)
  show pe: "pending (stopMonitoring s) = pending s"
    unfolding st by (rule fold_stop_chain_frame)
  {
    fix c m h
    assume a: "map_of (monitors s) c = Some m \<and> pollHandle m = Some h"
    then have "c \<in> set ?ks" using map_of_SomeD [of "monitors s" c m] by force
    then have "h \<notin> intervals (stopMonitoring s)"
      unfolding st using fold_stop_chain_clears(1) a by blast
    then show "exec (Tick h) (stopMonitoring s) = None" by (simp add: exec_def)
  }
  {
    fix c m lid w f t v hh
    assume a: "map_of (monitors s) c = Some m \<and> lid \<in> set (tokenListeners m)
         \<and> wallet s = Some w
         \<and> (\<forall>l. (lid, l) \<in> set (listeners s) \<longrightarrow> toLowerCase (l_filter_to l) = toLowerCase w)"
    then have c: "c \<in> set ?ks" using map_of_SomeD [of "monitors s" c m] by force
    have "map_of (listeners (stopMonitoring s)) lid = None"
    proof (cases "map_of (listeners (stopMonitoring s)) lid")
      case None
      then show ?thesis .
    next
      case (Some l)
      then have mem: "(lid, l) \<in> set (listeners (stopMonitoring s))" by (rule map_of_SomeD)
      then have "toLowerCase (l_filter_to l) \<noteq> toLowerCase w"
        unfolding st using fold_stop_chain_clears(2) [OF c] a by blast
      moreover have "(lid, l) \<in> set (listeners s)"
        using mem fold_stop_chain_frame(6) [of ?ks s] unfolding st by auto
      ultimately show ?thesis using a by blast
    qed
    then show "exec (Transfer lid f t v hh) (stopMonitoring s) = None"
      by (simp add: exec_def live_event_def)
  }
  {
    fix i r
    assume "i < length (pending s)"
    then show "exec (Settle i r) (stopMonitoring s)
           = resume (pending s ! i) r
               ((stopMonitoring s)\<lparr>pending := take i (pending s) @ drop (Suc i) (pending s)\<rparr>)"
      by (simp add: exec_def pe)
  }
qed

text \<open>
  The instance of claim C2: chain 1 is monitored for the token \<^verbatim>\<open>0xT\<close> with one listener
  attached, and a block fetch of its poller is in flight. After the stop the timer 1 does not
  fire and the listener 0 is not called, and the pending fetch, when it completes, delivers.
\<close>

theorem C2_stop_keeps_in_flight_witness:
  "\<exists>s. run [Unlock ''0xaa'', StartMonitoring [1] ''0xT'' '''',
             Settle 0 (RBlockNumber 7000), Settle 0 (RLogs []),
             Tick 1, Settle 0 (RBlock \<lparr>number = 100, transactions = []\<rparr>)] init = Some s
      \<and> map_of (monitors s) 1 = Some \<lparr>tokenListeners = [0], pollHandle = Some 1\<rparr>
      \<and> pending s = [PollBlock 1 100 100]
      \<and> exec (Tick 1) (stopMonitoring s) = None
      \<and> exec (Transfer 0 ''0xbb'' ''0xaa'' 5 (Some ''0xdef'')) (stopMonitoring s) = None
      \<and> map_option activity (exec (Settle 0 (RBlock \<lparr>number = 100, transactions =
             [\<lparr>tx_from = Some ''0xbb'', tx_to = Some ''0xaa'', tx_value = 5,
               tx_hash = Some ''0xabc''\<rparr>]\<rparr>)) (stopMonitoring s))
          = Some [(1, \<lparr>type = Native, token = None, info_from = Some ''0xbb'',
                       info_to = Some ''0xaa'', amount = FormatUnits 5 18,
                       txHash = Some ''0xabc''\<rparr>)]"
proof -
  obtain s where r: "run [Unlock ''0xaa'', StartMonitoring [1] ''0xT'' '''',
             Settle 0 (RBlockNumber 7000), Settle 0 (RLogs []),
             Tick 1, Settle 0 (RBlock \<lparr>number = 100, transactions = []\<rparr>)] init = Some s"
    and m: "map_of (monitors s) 1 = Some \<lparr>tokenListeners = [0], pollHandle = Some 1\<rparr>"
    and p: "pending s = [PollBlock 1 100 100]"
    and w: "wallet s = Some ''0xaa''"
    and l: "listeners s = [(0, \<lparr>l_chain = 1, l_token = ''0xT'',
              l_provider = \<lparr>prov_id = 0, prov_url = ''https://cloudflare-eth.com''\<rparr>,
              l_filter_to = ''0xaa''\<rparr>)]"
    and a: "activity s = []" and se: "seenTxs s = {}"
    and q: "pollers s 1 = Some \<lparr>p_chain = 1,
              p_provider = \<lparr>prov_id = 0, prov_url = ''https://cloudflare-eth.com''\<rparr>,
              p_siteAddr = None, polledBlock = Some 99\<rparr>"
    by (simp add: string_eval registry_eval monitor_eval)
  note main = C2_stop_keeps_in_flight [of s]
  have ph: "pollHandle \<lparr>tokenListeners = [0], pollHandle = Some 1\<rparr> = Some 1"
    and tl: "0 \<in> set (tokenListeners \<lparr>tokenListeners = [0::nat], pollHandle = Some 1\<rparr>)"
    by simp_all
  have lm: "\<forall>x. (0, x) \<in> set (listeners s) \<longrightarrow> toLowerCase (l_filter_to x) = toLowerCase ''0xaa''"
    by (simp add: l)
  have 1: "exec (Tick 1) (stopMonitoring s) = None"
    using main m ph by blast
  have 2: "exec (Transfer 0 ''0xbb'' ''0xaa'' 5 (Some ''0xdef'')) (stopMonitoring s) = None"
    using main m tl w lm by blast
  let ?b = "RBlock \<lparr>number = 100, transactions =
             [\<lparr>tx_from = Some ''0xbb'', tx_to = Some ''0xaa'', tx_value = 5,
               tx_hash = Some ''0xabc''\<rparr>]\<rparr>"
  have i0: "0 < length (pending s)" by (simp add: p)
  have "exec (Settle 0 ?b) (stopMonitoring s)
           = resume (pending s ! 0) ?b
               ((stopMonitoring s)\<lparr>pending := take 0 (pending s) @ drop (Suc 0) (pending s)\<rparr>)"
    using main i0 by blast
  then have 3: "exec (Settle 0 ?b) (stopMonitoring s)
           = resume (PollBlock 1 100 100) ?b ((stopMonitoring s)\<lparr>pending := []\<rparr>)"
    by (simp add: p)
  have fr: "wallet (stopMonitoring s) = Some ''0xaa''" "activity (stopMonitoring s) = []"
      "seenTxs (stopMonitoring s) = {}"
      "pollers (stopMonitoring s) (Suc 0) = Some \<lparr>p_chain = 1,
              p_provider = \<lparr>prov_id = 0, prov_url = ''https://cloudflare-eth.com''\<rparr>,
              p_siteAddr = None, polledBlock = Some 99\<rparr>"
    using w a se q fold_stop_chain_frame(2,3,7,8) [of "map fst (monitors s)" s]
    by (simp_all add: stopMonitoring_def)
  have 4: "map_option activity (exec (Settle 0 ?b) (stopMonitoring s))
          = Some [(1, \<lparr>type = Native, token = None, info_from = Some ''0xbb'',
                       info_to = Some ''0xaa'', amount = FormatUnits 5 18,
                       txHash = Some ''0xabc''\<rparr>)]"
    unfolding 3
    by (simp add: fr resume_def poll_block_def set_polledBlock_def scan_tx_def string_eval
        recordActivity_def native_info_def site_info_def formatEther_def Let_def)
  show ?thesis using r m p 1 2 4 by blast
qed

end
